theory Spec2Isabelle
  imports Complex_Main "HOL-Library.AList"
begin

section \<open>Strings\<close>

text \<open>
  A Python \<open>str\<close> is modelled as a \<open>string\<close>, each \<open>char\<close> standing for one code
  point below 256. The character classes of Python (\<open>str.isspace\<close> and the pattern
  \<open>\s\<close>, \<open>str.lower\<close>, the pattern \<open>\w\<close>) are written out for that range.
\<close>

definition is_space :: "char \<Rightarrow> bool" where
  "is_space c \<longleftrightarrow> c \<in> {CHR 0x09, CHR 0x0A, CHR 0x0B, CHR 0x0C, CHR 0x0D,
     CHR 0x1C, CHR 0x1D, CHR 0x1E, CHR 0x1F, CHR 0x20, CHR 0x85, CHR 0xA0}"

definition lower_char :: "char \<Rightarrow> char" where
  "lower_char c =
     (let n = (of_char c :: nat)
      in if (65 \<le> n \<and> n \<le> 90) \<or> (192 \<le> n \<and> n \<le> 222 \<and> n \<noteq> 215)
         then char_of (n + 32) else c)"

definition lower :: "string \<Rightarrow> string" where
  "lower s = map lower_char s"

definition is_word_char :: "char \<Rightarrow> bool" where
  "is_word_char c =
     (let n = (of_char c :: nat)
      in (48 \<le> n \<and> n \<le> 57) \<or> (65 \<le> n \<and> n \<le> 90) \<or> n = 95 \<or> (97 \<le> n \<and> n \<le> 122)
         \<or> n \<in> {170, 178, 179, 181, 185, 186, 188, 189, 190}
         \<or> (192 \<le> n \<and> n \<noteq> 215 \<and> n \<noteq> 247))"

definition strip :: "string \<Rightarrow> string" where
  "strip s = rev (dropWhile is_space (rev (dropWhile is_space s)))"

text \<open>\<open>starts_with p s\<close> is \<open>s.startswith(p)\<close>; \<open>contains p s\<close> is Python's \<open>p in s\<close>.\<close>

fun starts_with :: "string \<Rightarrow> string \<Rightarrow> bool" where
  "starts_with [] s = True"
| "starts_with (p # ps) [] = False"
| "starts_with (p # ps) (c # cs) = (p = c \<and> starts_with ps cs)"

fun contains :: "string \<Rightarrow> string \<Rightarrow> bool" where
  "contains p [] = (p = [])"
| "contains p (c # cs) = (starts_with p (c # cs) \<or> contains p cs)"

text \<open>\<open>join_sp\<close> is \<open>' '.join\<close>.\<close>

fun join_sp :: "string list \<Rightarrow> string" where
  "join_sp [] = []"
| "join_sp [s] = s"
| "join_sp (s # t # ss) = s @ '' '' @ join_sp (t # ss)"

section \<open>Regular expressions of the call termination detector\<close>

text \<open>
  The patterns of \<open>is_end_of_call\<close> use literals, alternation, optional groups and the
  whitespace repetitions \<open>\s*\<close> and \<open>\s+\<close>; they have no anchors, look-arounds or
  back-references. \<open>rx_rems r s\<close> lists what is left of \<open>s\<close> after each way of matching
  \<open>r\<close> at its start, in the order in which a backtracking matcher tries them (greedy
  first); \<open>re_search r s\<close> is the truth value of \<open>re.search(r, s)\<close>.
\<close>

datatype rx = Lit string | Seq rx rx | Alt rx rx | Opt rx | Spaces0 | Spaces1

fun ws_rems :: "string \<Rightarrow> string list" where
  "ws_rems [] = [[]]"
| "ws_rems (c # cs) = (if is_space c then ws_rems cs @ [c # cs] else [c # cs])"

fun rx_rems :: "rx \<Rightarrow> string \<Rightarrow> string list" where
  "rx_rems (Lit w) s = (if starts_with w s then [drop (length w) s] else [])"
| "rx_rems (Seq a b) s = concat (map (rx_rems b) (rx_rems a s))"
| "rx_rems (Alt a b) s = rx_rems a s @ rx_rems b s"
| "rx_rems (Opt a) s = rx_rems a s @ [s]"
| "rx_rems Spaces0 s = ws_rems s"
| "rx_rems Spaces1 s = (case s of [] \<Rightarrow> [] | c # cs \<Rightarrow> if is_space c then ws_rems cs else [])"

fun re_search :: "rx \<Rightarrow> string \<Rightarrow> bool" where
  "re_search r [] = (rx_rems r [] \<noteq> [])"
| "re_search r (c # cs) = (rx_rems r (c # cs) \<noteq> [] \<or> re_search r cs)"

fun seqs :: "rx list \<Rightarrow> rx" where
  "seqs [] = Lit []"
| "seqs [r] = r"
| "seqs (r # rs) = Seq r (seqs rs)"

fun alts :: "string list \<Rightarrow> rx" where
  "alts [] = Lit []"
| "alts [w] = Lit w"
| "alts (w # ws) = Alt (Lit w) (alts ws)"

section \<open>Call termination detector (call\_handler\_org.py, is\_end\_of\_call)\<close>

definition end_call_phrases :: "string list" where
  "end_call_phrases =
    [''no'', ''nope'', ''no questions'', ''no more questions'', ''no other questions'',
     ''no other question'', ''don't have any questions'', ''don't have any other questions'',
     ''i don't have any questions'', ''nothing else'', ''that is all'', ''that's all'',
     ''goodbye'', ''bye'', ''thank you goodbye'', ''thanks goodbye'', ''end call'',
     ''hang up'', ''that will be all'', ''i am done'', ''i'm done'', ''no thanks'',
     ''gotta go'', ''have to go'', ''we re done'', ''thats it'', ''end this call'',
     ''that concludes'', ''thanks for your help'', ''i am finished'', ''i am good'',
     ''that is enough'', ''all set'', ''i will let you go'', ''good day'', ''have a good day'']"

definition no_question_patterns :: "rx list" where
  "no_question_patterns =
    [seqs [Lit ''no'', Opt (Lit '',''), Spaces1, Opt (alts [''i'', ''I'']), Spaces0,
           Opt (Alt (seqs [Lit ''don'', Opt (Lit [CHR 0x27]), Lit ''t'']) (Lit ''do not'')),
           Spaces0, Lit ''have'', Spaces0, Opt (alts [''any'', ''more'', ''other'']),
           Spaces0, Lit ''questions''],
     seqs [Opt (alts [''i'', ''I'']), Spaces0,
           Alt (seqs [Lit ''don'', Opt (Lit [CHR 0x27]), Lit ''t'']) (Lit ''do not''),
           Spaces0, Lit ''have'', Spaces0, Opt (alts [''any'', ''more'', ''other'']),
           Spaces0, Lit ''questions''],
     seqs [Lit ''that'', Opt (Lit [CHR 0x27]), Lit ''s'', Spaces1, alts [''all'', ''it'']],
     seqs [Lit ''nothing'', Spaces1, alts [''else'', ''more'']],
     seqs [alts [''i'', ''I''], Opt (Lit [CHR 0x27]), Lit ''m'', Spaces1,
           Alt (alts [''good'', ''done'', ''finished''])
               (seqs [Lit ''all'', Spaces1, Lit ''set''])],
     seqs [alts [''no'', ''nope''], Opt (Lit '',''), Spaces1, alts [''thank'', ''thanks''],
           Spaces1, alts [''you'', ''ya'']]]"

fun phrase_loop :: "string list \<Rightarrow> string \<Rightarrow> bool" where
  "phrase_loop [] normalized_text = False"
| "phrase_loop (phrase # phrases) normalized_text =
     (if phrase = normalized_text \<or> contains phrase normalized_text then True
      else phrase_loop phrases normalized_text)"

fun pattern_loop :: "rx list \<Rightarrow> string \<Rightarrow> bool" where
  "pattern_loop [] normalized_text = False"
| "pattern_loop (pattern # patterns) normalized_text =
     (if re_search pattern normalized_text then True
      else pattern_loop patterns normalized_text)"

definition is_end_of_call :: "string \<Rightarrow> bool" where
  "is_end_of_call speech_text =
     (let normalized_text = strip (lower speech_text)
      in if phrase_loop end_call_phrases normalized_text then True
         else pattern_loop no_question_patterns normalized_text)"

section \<open>Chunker (call\_handler\_org.py, \_chunk\_response)\<close>

text \<open>
  \<open>split_sentences\<close> is \<open>re.split(r'(?<=[.!?])\s+', text)\<close>: a sentence ends after a
  terminal mark that is followed by whitespace, and the whole run of whitespace is the
  separator.
\<close>

definition is_terminal :: "char \<Rightarrow> bool" where
  "is_terminal c \<longleftrightarrow> c = CHR ''.'' \<or> c = CHR ''!'' \<or> c = CHR ''?''"

function split_sentences :: "string \<Rightarrow> string list" where
  "split_sentences [] = [[]]"
| "split_sentences (c # cs) =
     (if is_terminal c \<and> cs \<noteq> [] \<and> is_space (hd cs)
      then [c] # split_sentences (dropWhile is_space cs)
      else (case split_sentences cs of
              [] \<Rightarrow> [[c]]
            | s # ss \<Rightarrow> (c # s) # ss))"
  by pat_completeness auto
termination
  by (relation "measure length") (auto simp: less_Suc_eq_le length_dropWhile_le)

fun chunk_loop :: "int \<Rightarrow> string list \<Rightarrow> string \<Rightarrow> string list \<Rightarrow> string list" where
  "chunk_loop max_chunk_length chunks current_chunk [] =
     (if current_chunk \<noteq> [] then chunks @ [strip current_chunk] else chunks)"
| "chunk_loop max_chunk_length chunks current_chunk (sentence # sentences) =
     (if int (length current_chunk) + int (length sentence) \<le> max_chunk_length
      then chunk_loop max_chunk_length chunks
             (if current_chunk \<noteq> [] then current_chunk @ '' '' @ sentence else sentence)
             sentences
      else chunk_loop max_chunk_length
             (if current_chunk \<noteq> [] then chunks @ [strip current_chunk] else chunks)
             sentence sentences)"

definition chunk_response :: "string \<Rightarrow> int \<Rightarrow> string list" where
  "chunk_response response_text max_chunk_length =
     (if int (length response_text) \<le> max_chunk_length then [response_text]
      else chunk_loop max_chunk_length [] [] (split_sentences response_text))"

text \<open>\<open>solid s\<close>: the string has a character that is not whitespace.\<close>

definition solid :: "string \<Rightarrow> bool" where
  "solid s \<longleftrightarrow> list_ex (\<lambda>c. \<not> is_space c) s"

text \<open>\<open>clean s\<close>: the string is not empty and has no whitespace at either end.\<close>

definition clean :: "string \<Rightarrow> bool" where
  "clean s \<longleftrightarrow> s \<noteq> [] \<and> \<not> is_space (hd s) \<and> \<not> is_space (last s)"

section \<open>Call handler (call\_handler\_org.py)\<close>

text \<open>
  Timestamps (\<open>time.time()\<close>) and thresholds are real numbers; \<open>now\<close> is what the
  clock returns during the call. A value that need not be a string is a \<open>py_value\<close>:
  \<open>PyStr\<close> for a string, \<open>PyNonStr\<close> for anything else.
\<close>

datatype py_value = PyStr string | PyNonStr

text \<open>One entry of \<open>conversation_history\<close>: \<open>{"role": ..., "content": ...}\<close>.\<close>

record turn =
  turn_role :: string
  turn_content :: py_value

text \<open>
  The record of one call in \<open>active_calls\<close>. A key that the source tests with \<open>in\<close>
  before reading it is an optional field.
\<close>

record call_data =
  to_number :: "string option"
  call_status :: "string option"
  conversation_state :: string
  conversation_history :: "turn list option"
  last_activity :: "real option"

text \<open>
  \<open>active_calls\<close> is a dictionary in insertion order, keyed by what
  \<open>form_data.get('CallSid')\<close> returns (\<open>None\<close> when the field is missing).
  \<open>history_files\<close> are the files written by \<open>_store_conversation_history\<close>.
\<close>

record call_handler =
  active_calls :: "(string option \<times> call_data) list"
  history_files :: "(string option \<times> call_data) list"

text \<open>
  The fields of the form that the handlers read. \<open>Confidence\<close> is given by what
  \<open>float(confidence or 0)\<close> makes of it: \<open>ConfAbsent\<close> when the field is missing or
  empty, \<open>ConfBad\<close> when \<open>float\<close> raises, \<open>ConfVal x\<close> when it parses to \<open>x\<close>.
\<close>

datatype conf = ConfAbsent | ConfBad | ConfVal real

record form_data =
  CallSid :: "string option"
  CallStatus :: "string option"
  SpeechResult :: "string option"
  Confidence :: conf

text \<open>The verbs of a TwiML response, in order; \<open>Gather\<close> carries its prompt.\<close>

datatype verb = Say string | Gather string | Redirect | Hangup

subsection \<open>\_cleanup\_stale\_calls\<close>

definition is_stale_call :: "real \<Rightarrow> call_data \<Rightarrow> bool" where
  "is_stale_call current_time call_data =
     (case last_activity call_data of
        Some t \<Rightarrow> current_time - t > 1800
      | None \<Rightarrow> False)"

definition cleanup_stale_calls :: "real \<Rightarrow> call_handler \<Rightarrow> call_handler" where
  "cleanup_stale_calls current_time h =
     (let calls_to_remove =
            map fst (filter (\<lambda>(call_sid, call_data). is_stale_call current_time call_data)
                       (active_calls h));
          stamped =
            map (\<lambda>(call_sid, call_data).
                   (call_sid,
                    if last_activity call_data = None
                    then call_data\<lparr>last_activity := Some current_time\<rparr>
                    else call_data))
              (active_calls h)
      in h\<lparr>active_calls := foldl (\<lambda>calls call_sid. AList.delete call_sid calls)
                                stamped calls_to_remove\<rparr>)"

subsection \<open>handle\_call\_status and \_store\_conversation\_history\<close>

datatype status_result = StatusSuccess | StatusError

definition terminal_statuses :: "string list" where
  "terminal_statuses = [''completed'', ''failed'', ''busy'', ''no-answer'', ''canceled'']"

text \<open>
  \<open>write_ok\<close> tells whether opening and writing the history file succeeds; when it
  does not, \<open>_store_conversation_history\<close> logs and raises again (\<open>None\<close>). What
  a failed write leaves on disk is not part of the model.
\<close>

definition store_conversation_history ::
  "bool \<Rightarrow> string option \<Rightarrow> call_data \<Rightarrow> call_handler \<Rightarrow> call_handler option" where
  "store_conversation_history write_ok call_sid call_data h =
     (if write_ok
      then Some (h\<lparr>history_files := AList.update call_sid call_data (history_files h)\<rparr>)
      else None)"

definition handle_call_status ::
  "bool \<Rightarrow> real \<Rightarrow> form_data \<Rightarrow> call_handler \<Rightarrow> call_handler \<times> status_result" where
  "handle_call_status write_ok now form h =
     (let call_sid = CallSid form; call_status = CallStatus form
      in case map_of (active_calls h) call_sid of
           None \<Rightarrow> (h, StatusSuccess)
         | Some call \<Rightarrow>
             let call1 = call\<lparr>call_status := call_status, last_activity := Some now\<rparr>;
                 h1 = h\<lparr>active_calls := AList.update call_sid call1 (active_calls h)\<rparr>
             in if (case call_status of None \<Rightarrow> False | Some s \<Rightarrow> s \<in> set terminal_statuses)
                then let h2 = (if conversation_history call1 \<noteq> None
                               then (case store_conversation_history write_ok call_sid call1 h1 of
                                       Some h' \<Rightarrow> h'
                                     | None \<Rightarrow> h1)
                               else h1)
                     in (h2\<lparr>active_calls := AList.delete call_sid (active_calls h2)\<rparr>,
                         StatusSuccess)
                else (h1, StatusSuccess))"

subsection \<open>handle\_speech\_input\<close>

definition end_message :: string where
  "end_message = ''Thank you for calling Premier Real Estate Services. If you have more questions in the future, feel free to call us again. Have a great day!''"

definition generic_answer :: string where
  "generic_answer = ''I understand you have a question about real estate. I'd be happy to help with information about buying, selling, or investing in properties.''"

definition low_confidence_response :: "verb list" where
  "low_confidence_response =
     [Say ''I'm sorry, I didn't catch that clearly. Could you please speak a bit louder and more clearly?'',
      Gather ''Please ask your real estate question clearly.'',
      Say ''I still didn't hear anything. Let me ask again.'',
      Redirect]"

definition error_response :: "verb list" where
  "error_response =
     [Say ''I'm sorry, we're experiencing technical difficulties. Please try again.'',
      Gather ''Please ask your question again.'']"

text \<open>
  \<open>append_turn\<close> is
  \<open>self.active_calls[call_sid]['conversation_history'].append(...)\<close>; it raises
  \<open>KeyError\<close> (\<open>None\<close>) when the call or its history is missing.
\<close>

definition append_turn :: "string option \<Rightarrow> turn \<Rightarrow> call_handler \<Rightarrow> call_handler option" where
  "append_turn call_sid t h =
     (case map_of (active_calls h) call_sid of
        None \<Rightarrow> None
      | Some call \<Rightarrow>
          (case conversation_history call of
             None \<Rightarrow> None
           | Some hist \<Rightarrow>
               Some (h\<lparr>active_calls :=
                         AList.update call_sid (call\<lparr>conversation_history := Some (hist @ [t])\<rparr>)
                           (active_calls h)\<rparr>)))"

text \<open>Lines 462 to 468: the answer that is put into the TwiML.\<close>

definition spoken_answer :: "py_value \<Rightarrow> string" where
  "spoken_answer ai_response =
     (let checked = (case ai_response of
                       PyNonStr \<Rightarrow> generic_answer
                     | PyStr s \<Rightarrow> if s = [] \<or> length (strip s) = 0 then generic_answer else s)
      in if length checked > 1000 then take 997 checked @ ''...'' else checked)"

text \<open>
  \<open>process_user_query\<close> stands for \<open>_process_user_query\<close> (knowledge base, Azure,
  fallback), an external capability. It gets the history of the copied call state,
  whose list is shared with the stored one and so already holds the user's query.
  The result is the handler after the call and the TwiML returned.
\<close>

definition handle_speech_input ::
  "(string \<Rightarrow> turn list \<Rightarrow> py_value) \<Rightarrow> real \<Rightarrow> form_data \<Rightarrow> call_handler
     \<Rightarrow> call_handler \<times> verb list" where
  "handle_speech_input process_user_query now form h =
     (let call_sid = CallSid form;
          h1 = (case map_of (active_calls h) call_sid of
                  None \<Rightarrow>
                    h\<lparr>active_calls := AList.update call_sid
                        \<lparr>to_number = None, call_status = Some ''in-progress'',
                         conversation_state = ''in-progress'',
                         conversation_history = Some [], last_activity = Some now\<rparr>
                        (active_calls h)\<rparr>
                | Some call \<Rightarrow>
                    h\<lparr>active_calls := AList.update call_sid
                        (call\<lparr>last_activity := Some now\<rparr>) (active_calls h)\<rparr>)
      in case SpeechResult form of
           None \<Rightarrow> (h1, low_confidence_response)
         | Some speech_result \<Rightarrow>
             if speech_result = [] then (h1, low_confidence_response)
             else (case Confidence form of
                     ConfBad \<Rightarrow> (h1, error_response)
                   | ConfAbsent \<Rightarrow> (h1, low_confidence_response)
                   | ConfVal c \<Rightarrow>
                       if c < 0.3 then (h1, low_confidence_response)
                       else if is_end_of_call speech_result then
                         (case append_turn call_sid
                                 \<lparr>turn_role = ''user'', turn_content = PyStr speech_result\<rparr> h1 of
                            None \<Rightarrow> (h1, error_response)
                          | Some h2 \<Rightarrow>
                              (case append_turn call_sid
                                      \<lparr>turn_role = ''assistant'',
                                       turn_content = PyStr end_message\<rparr> h2 of
                                 None \<Rightarrow> (h2, error_response)
                               | Some h3 \<Rightarrow> (h3, [Say end_message, Hangup])))
                       else
                         (case append_turn call_sid
                                 \<lparr>turn_role = ''user'', turn_content = PyStr speech_result\<rparr> h1 of
                            None \<Rightarrow> (h1, error_response)
                          | Some h2 \<Rightarrow>
                              let history =
                                    (case map_of (active_calls h2) call_sid of
                                       None \<Rightarrow> []
                                     | Some call \<Rightarrow>
                                         (case conversation_history call of
                                            None \<Rightarrow> [] | Some hist \<Rightarrow> hist));
                                  ai_response = process_user_query speech_result history
                              in (case append_turn call_sid
                                        \<lparr>turn_role = ''assistant'',
                                         turn_content = ai_response\<rparr> h2 of
                                    None \<Rightarrow> (h2, error_response)
                                  | Some h3 \<Rightarrow>
                                      let response_chunks =
                                            chunk_response (spoken_answer ai_response) 150;
                                          twiml = map Say response_chunks @
                                            [Gather ''Do you have another real estate question I can help with?'',
                                             Say ''I didn't hear anything. Let me ask one more time.'',
                                             Redirect]
                                      in (case map_of (active_calls h3) call_sid of
                                            None \<Rightarrow> (h3, error_response)
                                          | Some call \<Rightarrow>
                                              (h3\<lparr>active_calls := AList.update call_sid
                                                    (call\<lparr>conversation_state := ''in-progress''\<rparr>)
                                                    (active_calls h3)\<rparr>,
                                               twiml))))))"

subsection \<open>get\_call\_history\<close>

definition get_call_history :: "string option \<Rightarrow> call_handler \<Rightarrow> turn list" where
  "get_call_history call_sid h =
     (case map_of (active_calls h) call_sid of
        None \<Rightarrow> []
      | Some call \<Rightarrow> (case conversation_history call of None \<Rightarrow> [] | Some hist \<Rightarrow> hist))"

section \<open>Conversation manager (conversation\_manager.py)\<close>

text \<open>
  A conversation is the dictionary built by \<open>initialize_conversation\<close>; every
  conversation in the store is built there, so each of its keys is a field.
  \<open>conversations\<close> and \<open>active_responses\<close> are dictionaries in insertion order.
\<close>

record message =
  role :: string
  content :: string
  timestamp :: real
  metadata :: "(string \<times> string) list"
  message_id :: string

record conversation_state_info =
  current_topic :: "string option"
  intent :: "string option"
  state_context :: "(string \<times> string) list"
  last_interaction_time :: real
  total_interactions :: int
  conversation_type :: string

record follow_up =
  expected_topics :: "string list"
  related_questions :: "string list"
  context_keywords :: "string list"

record interruption_policy =
  active_response_token :: "string option"
  can_interrupt :: bool
  interrupt_threshold :: int

record conversation =
  history :: "message list"
  state :: conversation_state_info
  follow_up_context :: follow_up
  interruption_management :: interruption_policy

record response_info =
  call_sid :: string
  start_time :: real
  response_metadata :: "(string \<times> string) list"
  status :: string
  interruption_count :: int
  interrupt_reason :: "string option"

record manager =
  conversations :: "(string \<times> conversation) list"
  active_responses :: "(string \<times> response_info) list"
  max_history_length :: int

text \<open>\<open>or_empty d\<close> is \<open>d or {}\<close>.\<close>

definition or_empty :: "(string \<times> string) list option \<Rightarrow> (string \<times> string) list" where
  "or_empty d = (case d of None \<Rightarrow> [] | Some kvs \<Rightarrow> kvs)"

subsection \<open>initialize\_conversation\<close>

definition new_conversation :: "(string \<times> string) list option \<Rightarrow> real \<Rightarrow> conversation" where
  "new_conversation initial_context now =
     \<lparr>history = [],
      state = \<lparr>current_topic = None, intent = None, state_context = or_empty initial_context,
               last_interaction_time = now, total_interactions = 0,
               conversation_type = ''initial''\<rparr>,
      follow_up_context = \<lparr>expected_topics = [], related_questions = [],
                           context_keywords = []\<rparr>,
      interruption_management = \<lparr>active_response_token = None, can_interrupt = True,
                                 interrupt_threshold = 3\<rparr>\<rparr>"

definition initialize_conversation ::
  "string \<Rightarrow> (string \<times> string) list option \<Rightarrow> real \<Rightarrow> manager \<Rightarrow> manager \<times> bool" where
  "initialize_conversation sid initial_context now m =
     (if sid = [] then (m, False)
      else if map_of (conversations m) sid = None
      then (m\<lparr>conversations :=
                AList.update sid (new_conversation initial_context now) (conversations m)\<rparr>,
            True)
      else (m, False))"

subsection \<open>add\_follow\_up\_context\<close>

definition add_follow_up_context ::
  "string \<Rightarrow> string list option \<Rightarrow> string list option \<Rightarrow> string list option \<Rightarrow> real
     \<Rightarrow> manager \<Rightarrow> manager \<times> bool" where
  "add_follow_up_context sid topics questions keywords now m =
     (if sid = [] then (m, False)
      else
        let (m1, ok) = (if map_of (conversations m) sid = None
                        then initialize_conversation sid None now m else (m, True))
        in if \<not> ok then (m1, False)
           else (case map_of (conversations m1) sid of
                   None \<Rightarrow> (m1, False)
                 | Some conversation \<Rightarrow>
                     let f0 = follow_up_context conversation;
                         f1 = (case topics of
                                 Some ts \<Rightarrow> if ts \<noteq> [] then f0\<lparr>expected_topics := ts\<rparr> else f0
                               | None \<Rightarrow> f0);
                         f2 = (case questions of
                                 Some qs \<Rightarrow> if qs \<noteq> [] then f1\<lparr>related_questions := qs\<rparr> else f1
                               | None \<Rightarrow> f1);
                         f3 = (case keywords of
                                 Some ks \<Rightarrow> if ks \<noteq> [] then f2\<lparr>context_keywords := ks\<rparr> else f2
                               | None \<Rightarrow> f2)
                     in (m1\<lparr>conversations :=
                              AList.update sid (conversation\<lparr>follow_up_context := f3\<rparr>)
                                (conversations m1)\<rparr>,
                         True)))"

subsection \<open>evaluate\_follow\_up\_relevance\<close>

text \<open>
  \<open>has_marker\<close> is \<open>re.search(r'\b(more|further|additional|again)\b', s)\<close>: one of the
  words, with no word character just before it and none just after it.
\<close>

definition marker_words :: "string list" where
  "marker_words = [''more'', ''further'', ''additional'', ''again'']"

definition marker_here :: "string \<Rightarrow> bool" where
  "marker_here s =
     list_ex (\<lambda>w. starts_with w s \<and>
                   (case drop (length w) s of [] \<Rightarrow> True | d # ds \<Rightarrow> \<not> is_word_char d))
       marker_words"

fun marker_from :: "bool \<Rightarrow> string \<Rightarrow> bool" where
  "marker_from after_word [] = False"
| "marker_from after_word (c # cs) =
     ((\<not> after_word \<and> marker_here (c # cs)) \<or> marker_from (is_word_char c) cs)"

definition has_marker :: "string \<Rightarrow> bool" where
  "has_marker s = marker_from False s"

text \<open>
  The confidence is a Python float, an IEEE double. Every double that arises here (0.0,
  the weights 0.4, 0.3, 0.2 and 0.1, the bounds 0.5 and 1.0, and every rounded sum of
  such numbers) is a whole multiple of 2 to the power -56, so a \<open>py_float\<close> is the
  number of such units: \<open>float_value n = n / 2 ^ 56\<close>. \<open>float_add\<close> is the addition of
  doubles: the exact sum rounded to 53 significant bits, to the nearest and on a tie to
  the even significand. The weights are the doubles nearest to the decimal literals. A
  sum would overflow only at 2 to the power 1024, which no list of entries can reach,
  so the model has no infinity.
\<close>

type_synonym py_float = nat

definition float_value :: "py_float \<Rightarrow> real" where
  "float_value n = real n / 2 ^ 56"

fun bit_length :: "nat \<Rightarrow> nat" where
  "bit_length n = (if n = 0 then 0 else Suc (bit_length (n div 2)))"

declare bit_length.simps [simp del]

definition round_half_even :: "nat \<Rightarrow> nat \<Rightarrow> nat" where
  "round_half_even n k =
     (let q = n div 2 ^ k; r = n mod 2 ^ k; half = 2 ^ (k - 1)
      in if r < half then q else if half < r then q + 1
         else if even q then q else q + 1)"

definition round53 :: "nat \<Rightarrow> py_float" where
  "round53 n =
     (let k = bit_length n - 53
      in if k = 0 then n else round_half_even n k * 2 ^ k)"

definition float_add :: "py_float \<Rightarrow> py_float \<Rightarrow> py_float" where
  "float_add x y = round53 (x + y)"

definition float_0_4 :: py_float where "float_0_4 = 28823037615171176"
definition float_0_3 :: py_float where "float_0_3 = 21617278211378380"
definition float_0_2 :: py_float where "float_0_2 = 14411518807585588"
definition float_0_1 :: py_float where "float_0_1 = 7205759403792794"
definition float_0_5 :: py_float where "float_0_5 = 2 ^ 55"
definition float_1_0 :: py_float where "float_1_0 = 2 ^ 56"

text \<open>
  One of the three loops over the follow-up context: each entry whose lowercased text
  occurs in the query is appended to the matches and adds \<open>weight\<close> to the confidence.
\<close>

fun match_loop ::
  "py_float \<Rightarrow> string \<Rightarrow> string list \<Rightarrow> string list \<times> py_float
     \<Rightarrow> string list \<times> py_float" where
  "match_loop weight query_lower [] (matched, confidence) = (matched, confidence)"
| "match_loop weight query_lower (x # xs) (matched, confidence) =
     (if contains (lower x) query_lower
      then match_loop weight query_lower xs (matched @ [x], float_add confidence weight)
      else match_loop weight query_lower xs (matched, confidence))"

record relevance =
  is_follow_up :: bool
  confidence :: py_float
  matched_context :: "(string list \<times> string list \<times> string list) option"
  error :: "string option"

definition evaluate_follow_up_relevance :: "string \<Rightarrow> string \<Rightarrow> manager \<Rightarrow> relevance" where
  "evaluate_follow_up_relevance sid new_query m =
     (if sid = [] \<or> new_query = []
      then \<lparr>is_follow_up = False, confidence = 0, matched_context = None,
            error = Some ''Empty call SID or query''\<rparr>
      else (case map_of (conversations m) sid of
              None \<Rightarrow> \<lparr>is_follow_up = False, confidence = 0,
                        matched_context = Some ([], [], []), error = None\<rparr>
            | Some conversation \<Rightarrow>
                let f = follow_up_context conversation;
                    query_lower = lower new_query;
                    (topics, c1) = match_loop float_0_4 query_lower (expected_topics f) ([], 0);
                    (questions, c2) =
                      match_loop float_0_3 query_lower (related_questions f) ([], c1);
                    (keywords, c3) =
                      match_loop float_0_2 query_lower (context_keywords f) ([], c2);
                    c4 = (if has_marker query_lower then float_add c3 float_0_1 else c3)
                in \<lparr>is_follow_up = (c4 > float_0_5), confidence = min c4 float_1_0,
                    matched_context = Some (topics, questions, keywords), error = None\<rparr>))"

subsection \<open>track\_active\_response\<close>

definition track_active_response ::
  "string \<Rightarrow> string \<Rightarrow> (string \<times> string) list option \<Rightarrow> real \<Rightarrow> manager \<Rightarrow> manager \<times> bool" where
  "track_active_response sid response_token md now m =
     (if sid = [] \<or> response_token = [] then (m, False)
      else
        let (m1, ok) = (if map_of (conversations m) sid = None
                        then initialize_conversation sid None now m else (m, True))
        in if \<not> ok then (m1, False)
           else
             let m2 = m1\<lparr>active_responses :=
                          AList.update response_token
                            \<lparr>call_sid = sid, start_time = now, response_metadata = or_empty md,
                             status = ''active'', interruption_count = 0,
                             interrupt_reason = None\<rparr>
                            (active_responses m1)\<rparr>
             in (case map_of (conversations m2) sid of
                   None \<Rightarrow> (m2, False)
                 | Some conversation \<Rightarrow>
                     (m2\<lparr>conversations :=
                           AList.update sid
                             (conversation\<lparr>interruption_management :=
                                (interruption_management conversation)
                                  \<lparr>active_response_token := Some response_token,
                                   can_interrupt := True\<rparr>\<rparr>)
                             (conversations m2)\<rparr>,
                      True)))"

subsection \<open>handle\_response\_interruption\<close>

record interruption_result =
  success :: bool
  result_message :: string
  reported_count :: "int option"

definition handle_response_interruption ::
  "string \<Rightarrow> string option \<Rightarrow> manager \<Rightarrow> manager \<times> interruption_result" where
  "handle_response_interruption response_token reason m =
     (if response_token = []
      then (m, \<lparr>success = False, result_message = ''Empty response token'',
                reported_count = None\<rparr>)
      else (case map_of (active_responses m) response_token of
              None \<Rightarrow> (m, \<lparr>success = False, result_message = ''Response not found'',
                            reported_count = None\<rparr>)
            | Some info \<Rightarrow>
                let info1 = info\<lparr>status := ''interrupted'', interrupt_reason := reason,
                                 interruption_count := interruption_count info + 1\<rparr>;
                    m1 = m\<lparr>active_responses :=
                             AList.update response_token info1 (active_responses m)\<rparr>
                in (case map_of (conversations m1) (call_sid info1) of
                      None \<Rightarrow>
                        (m1, \<lparr>success = True,
                              result_message = ''Response interrupted but conversation not found'',
                              reported_count = None\<rparr>)
                    | Some conversation \<Rightarrow>
                        let interrupt_mgmt = interruption_management conversation
                        in if interruption_count info1 > interrupt_threshold interrupt_mgmt
                           then (m1\<lparr>conversations :=
                                      AList.update (call_sid info1)
                                        (conversation\<lparr>interruption_management :=
                                           interrupt_mgmt\<lparr>can_interrupt := False\<rparr>\<rparr>)
                                        (conversations m1)\<rparr>,
                                 \<lparr>success = False,
                                  result_message = ''Maximum interruptions reached'',
                                  reported_count = None\<rparr>)
                           else (m1\<lparr>conversations :=
                                      AList.update (call_sid info1)
                                        (conversation\<lparr>interruption_management :=
                                           interrupt_mgmt\<lparr>active_response_token := None\<rparr>\<rparr>)
                                        (conversations m1)\<rparr>,
                                 \<lparr>success = True,
                                  result_message = ''Response interrupted successfully'',
                                  reported_count = Some (interruption_count info1)\<rparr>))))"

subsection \<open>\_update\_conversation\_intent\<close>

definition intent_keywords :: "(string \<times> string list) list" where
  "intent_keywords =
     [(''buying'', [''buy'', ''purchase'', ''home'', ''property'', ''real estate'']),
      (''selling'', [''sell'', ''listing'', ''market'', ''price'', ''value'']),
      (''mortgage'', [''loan'', ''finance'', ''interest'', ''rate'', ''mortgage'']),
      (''investment'', [''invest'', ''rental'', ''income'', ''property management'']),
      (''market_info'', [''market'', ''trend'', ''prices'', ''appreciation''])]"

fun first_intent :: "(string \<times> string list) list \<Rightarrow> string \<Rightarrow> string option" where
  "first_intent [] content_lower = None"
| "first_intent ((label, keywords) # rest) content_lower =
     (if list_ex (\<lambda>keyword. contains keyword content_lower) keywords then Some label
      else first_intent rest content_lower)"

definition update_conversation_intent :: "string \<Rightarrow> string \<Rightarrow> manager \<Rightarrow> manager" where
  "update_conversation_intent sid user_content m =
     (if sid = [] \<or> user_content = [] then m
      else (case map_of (conversations m) sid of
              None \<Rightarrow> m
            | Some conversation \<Rightarrow>
                (case first_intent intent_keywords (lower user_content) of
                   None \<Rightarrow> m
                 | Some label \<Rightarrow>
                     m\<lparr>conversations :=
                         AList.update sid
                           (conversation\<lparr>state := (state conversation)\<lparr>intent := Some label\<rparr>\<rparr>)
                           (conversations m)\<rparr>)))"

subsection \<open>add\_conversation\_message\<close>

text \<open>\<open>str_nat\<close> is \<open>str\<close> on a natural number; \<open>slice_from k xs\<close> is \<open>xs[k:]\<close>.\<close>

definition digit_char :: "nat \<Rightarrow> char" where
  "digit_char d = char_of (48 + d)"

function str_nat :: "nat \<Rightarrow> string" where
  "str_nat n = (if n < 10 then [digit_char n] else str_nat (n div 10) @ [digit_char (n mod 10)])"
  by pat_completeness auto
termination
  by (relation "measure id") auto

declare str_nat.simps [simp del]

definition slice_from :: "int \<Rightarrow> 'a list \<Rightarrow> 'a list" where
  "slice_from k xs =
     (let n = int (length xs);
          start = (if k < 0 then max 0 (n + k) else min k n)
      in drop (nat start) xs)"

definition add_conversation_message ::
  "string \<Rightarrow> string \<Rightarrow> string option \<Rightarrow> (string \<times> string) list option \<Rightarrow> real
     \<Rightarrow> manager \<Rightarrow> manager \<times> bool" where
  "add_conversation_message sid msg_role msg_content md now m =
     (case msg_content of
        None \<Rightarrow> (m, False)
      | Some text \<Rightarrow>
          if sid = [] \<or> msg_role = [] then (m, False)
          else
            let (m1, ok) = (if map_of (conversations m) sid = None
                            then initialize_conversation sid None now m else (m, True))
            in if \<not> ok then (m1, False)
               else (case map_of (conversations m1) sid of
                       None \<Rightarrow> (m1, False)
                     | Some conversation \<Rightarrow>
                         let msg = \<lparr>role = msg_role, content = text, timestamp = now,
                                    metadata = or_empty md,
                                    message_id =
                                      sid @ ''_'' @ str_nat (length (history conversation) + 1)\<rparr>;
                             appended = history conversation @ [msg];
                             trimmed =
                               (if int (length appended) > max_history_length m1 * 2
                                then slice_from ((- max_history_length m1) * 2) appended
                                else appended);
                             st = (state conversation)
                                    \<lparr>last_interaction_time := now,
                                     total_interactions :=
                                       total_interactions (state conversation) + 1\<rparr>;
                             m2 = m1\<lparr>conversations :=
                                      AList.update sid
                                        (conversation\<lparr>history := trimmed, state := st\<rparr>)
                                        (conversations m1)\<rparr>
                         in (if msg_role = ''user''
                             then update_conversation_intent sid text m2 else m2,
                             True)))"

subsection \<open>get\_conversation\_context\<close>

record conversation_context =
  context_history :: "message list"
  context_state :: "conversation_state_info option"
  context_follow_up :: "follow_up option"
  context_interruption :: "interruption_policy option"
  context_error :: "string option"

definition get_conversation_context :: "string \<Rightarrow> int option \<Rightarrow> manager \<Rightarrow> conversation_context" where
  "get_conversation_context sid max_messages m =
     (if sid = []
      then \<lparr>context_history = [], context_state = None, context_follow_up = None,
            context_interruption = None, context_error = Some ''Empty call SID''\<rparr>
      else (case map_of (conversations m) sid of
              None \<Rightarrow> \<lparr>context_history = [], context_state = None, context_follow_up = None,
                        context_interruption = None, context_error = None\<rparr>
            | Some conversation \<Rightarrow>
                let h = history conversation;
                    h' = (case max_messages of
                            None \<Rightarrow> h
                          | Some k \<Rightarrow> if k \<noteq> 0 \<and> int (length h) > k
                                      then slice_from (- k) h else h)
                in \<lparr>context_history = h', context_state = Some (state conversation),
                    context_follow_up = Some (follow_up_context conversation),
                    context_interruption = Some (interruption_management conversation),
                    context_error = None\<rparr>))"

subsection \<open>cleanup\_stale\_conversations and cleanup\_conversation\<close>

definition is_stale :: "real \<Rightarrow> int \<Rightarrow> conversation \<Rightarrow> bool" where
  "is_stale current_time max_age_seconds conv \<longleftrightarrow>
     current_time - last_interaction_time (state conv) > real_of_int max_age_seconds"

definition cleanup_stale_conversations :: "int \<Rightarrow> real \<Rightarrow> manager \<Rightarrow> manager \<times> int" where
  "cleanup_stale_conversations max_age_seconds current_time m =
     (if max_age_seconds \<le> 0 then (m, 0)
      else
        let stale_conversations =
              map fst (filter (\<lambda>(sid, conv). is_stale current_time max_age_seconds conv)
                         (conversations m));
            remaining = foldl (\<lambda>convs sid. AList.delete sid convs)
                          (conversations m) stale_conversations;
            removed_count = int (length stale_conversations);
            stale_responses =
              map fst (filter (\<lambda>(response_token, info). call_sid info \<in> set stale_conversations)
                         (active_responses m))
        in (m\<lparr>conversations := remaining,
              active_responses := foldl (\<lambda>rs response_token. AList.delete response_token rs)
                                    (active_responses m) stale_responses\<rparr>,
            removed_count))"

definition cleanup_conversation :: "string \<Rightarrow> manager \<Rightarrow> manager \<times> bool" where
  "cleanup_conversation sid m =
     (if sid = [] then (m, False)
      else if map_of (conversations m) sid = None then (m, False)
      else
        let response_tokens_to_remove =
              map fst (filter (\<lambda>(response_token, info). call_sid info = sid)
                         (active_responses m))
        in (m\<lparr>conversations := AList.delete sid (conversations m),
              active_responses := foldl (\<lambda>rs response_token. AList.delete response_token rs)
                                    (active_responses m) response_tokens_to_remove\<rparr>,
            True))"

subsection \<open>The operations as one step function\<close>

text \<open>
  \<open>apply_operation\<close> is the effect of one call on the manager;
  \<open>evaluate_follow_up_relevance\<close> and \<open>get_conversation_context\<close> only read it.
\<close>

datatype operation =
    Initialize string "(string \<times> string) list option"
  | AddFollowUp string "string list option" "string list option" "string list option"
  | Track string string "(string \<times> string) list option"
  | Interrupt string "string option"
  | AddMessage string string "string option" "(string \<times> string) list option"
  | CleanupStale int
  | Cleanup string
  | UpdateIntent string string
  | Evaluate string string
  | GetContext string "int option"

fun apply_operation :: "real \<Rightarrow> operation \<Rightarrow> manager \<Rightarrow> manager" where
  "apply_operation now (Initialize sid ctx) m = fst (initialize_conversation sid ctx now m)"
| "apply_operation now (AddFollowUp sid ts qs ks) m = fst (add_follow_up_context sid ts qs ks now m)"
| "apply_operation now (Track sid token md) m = fst (track_active_response sid token md now m)"
| "apply_operation now (Interrupt token reason) m = fst (handle_response_interruption token reason m)"
| "apply_operation now (AddMessage sid r c md) m = fst (add_conversation_message sid r c md now m)"
| "apply_operation now (CleanupStale age) m = fst (cleanup_stale_conversations age now m)"
| "apply_operation now (Cleanup sid) m = fst (cleanup_conversation sid m)"
| "apply_operation now (UpdateIntent sid user_content) m =
     update_conversation_intent sid user_content m"
| "apply_operation now (Evaluate sid new_query) m = m"
| "apply_operation now (GetContext sid max_messages) m = m"

section \<open>Example states\<close>

definition example_call :: call_data where
  "example_call =
     \<lparr>to_number = None, call_status = Some ''in-progress'', conversation_state = ''greeting'',
      conversation_history = Some [], last_activity = Some 0\<rparr>"

definition example_handler :: call_handler where
  "example_handler = \<lparr>active_calls = [(Some ''CA1'', example_call)], history_files = []\<rparr>"

definition completed_form :: form_data where
  "completed_form =
     \<lparr>CallSid = Some ''CA1'', CallStatus = Some ''completed'', SpeechResult = None,
      Confidence = ConfAbsent\<rparr>"

definition example_manager :: manager where
  "example_manager =
     \<lparr>conversations = [(''CA1'', new_conversation None 0)], active_responses = [],
      max_history_length = 10\<rparr>"

definition speech_form :: form_data where
  "speech_form =
     \<lparr>CallSid = Some ''CA1'', CallStatus = None,
      SpeechResult = Some ''What about FHA loans?'', Confidence = ConfVal 0.9\<rparr>"

definition long_response :: string where
  "long_response = replicate 1001 CHR ''a''"

definition respond_long :: "string \<Rightarrow> turn list \<Rightarrow> py_value" where
  "respond_long query past_turns = PyStr long_response"

text \<open>
  A conversation with one tracked response: after three interruptions its count is at
  the threshold (\<open>threshold_manager\<close>), the fourth disables interruption
  (\<open>disabled_manager\<close>).
\<close>

definition tracked_manager :: manager where
  "tracked_manager = apply_operation 1 (Track ''CA1'' ''r1'' None) example_manager"

definition threshold_manager :: manager where
  "threshold_manager =
     apply_operation 4 (Interrupt ''r1'' None)
       (apply_operation 3 (Interrupt ''r1'' None)
          (apply_operation 2 (Interrupt ''r1'' None) tracked_manager))"

definition disabled_manager :: manager where
  "disabled_manager = apply_operation 5 (Interrupt ''r1'' None) threshold_manager"

definition zero_capacity_manager :: manager where
  "zero_capacity_manager =
     \<lparr>conversations = [], active_responses = [], max_history_length = 0\<rparr>"

definition follow_up_manager :: manager where
  "follow_up_manager =
     apply_operation 1
       (AddFollowUp ''CA1'' (Some [''FHA'']) (Some [''down payment''])
          (Some [''loan'', ''rate'']))
       example_manager"

text \<open>
  Two sentences of 75 characters each, separated by one space: a text of 151
  characters.
\<close>

definition two_sentences :: string where
  "two_sentences = replicate 74 CHR ''a'' @ ''. '' @ replicate 74 CHR ''b'' @ ''.''"

section \<open>What the specification says of the detector\<close>

text \<open>
  The specification describes the detector as a disjunction: the normalised text equals
  or contains a closing phrase, or some part of it belongs to the language of one of the
  patterns. \<open>rx_lang\<close> is that language, \<open>occurs_in\<close> is containment as a substring,
  and \<open>spec_is_end_of_call\<close> is the disjunction.
\<close>

fun rx_lang :: "rx \<Rightarrow> string set" where
  "rx_lang (Lit w) = {w}"
| "rx_lang (Seq a b) = {u @ v | u v. u \<in> rx_lang a \<and> v \<in> rx_lang b}"
| "rx_lang (Alt a b) = rx_lang a \<union> rx_lang b"
| "rx_lang (Opt a) = rx_lang a \<union> {[]}"
| "rx_lang Spaces0 = {w. list_all is_space w}"
| "rx_lang Spaces1 = {w. w \<noteq> [] \<and> list_all is_space w}"

definition occurs_in :: "string \<Rightarrow> string \<Rightarrow> bool" where
  "occurs_in p s \<longleftrightarrow> (\<exists>a b. s = a @ p @ b)"

definition spec_is_end_of_call :: "string \<Rightarrow> bool" where
  "spec_is_end_of_call text =
     (let n = strip (lower text)
      in (\<exists>p \<in> set end_call_phrases. p = n \<or> occurs_in p n)
         \<or> (\<exists>r \<in> set no_question_patterns. \<exists>w \<in> rx_lang r. occurs_in w n))"

section \<open>What the specification says of the follow-up score\<close>

text \<open>
  The query contains a continuation marker word when one of the marker words occurs in
  it as a whole word: with no word character next to it on either side.
\<close>

definition contains_marker_word :: "string \<Rightarrow> bool" where
  "contains_marker_word s \<longleftrightarrow>
     (\<exists>a w b. s = a @ w @ b \<and> w \<in> set marker_words
        \<and> (a = [] \<or> \<not> is_word_char (last a))
        \<and> (b = [] \<or> \<not> is_word_char (hd b)))"

text \<open>
  The score of the specification: 0.4 for each expected topic, 0.3 for each related
  question and 0.2 for each context keyword that occurs (lowercased) in the lowercased
  query, and 0.1 for a continuation marker word.
\<close>

definition spec_follow_up_score :: "follow_up \<Rightarrow> string \<Rightarrow> real" where
  "spec_follow_up_score f new_query =
     0.4 * real (length (filter (\<lambda>x. occurs_in (lower x) (lower new_query)) (expected_topics f)))
     + 0.3 * real (length (filter (\<lambda>x. occurs_in (lower x) (lower new_query)) (related_questions f)))
     + 0.2 * real (length (filter (\<lambda>x. occurs_in (lower x) (lower new_query)) (context_keywords f)))
     + (if contains_marker_word (lower new_query) then 0.1 else 0)"

text \<open>
  The same score as the code computes it: the weights of the matches, in the order
  expected topics, related questions, context keywords, marker word, added one after
  the other in double precision, starting from 0.0.
\<close>

definition score_terms :: "nat \<Rightarrow> nat \<Rightarrow> nat \<Rightarrow> bool \<Rightarrow> py_float list" where
  "score_terms topics questions keywords marker =
     replicate topics float_0_4 @ replicate questions float_0_3
     @ replicate keywords float_0_2 @ (if marker then [float_0_1] else [])"

definition float_sum :: "py_float list \<Rightarrow> py_float" where
  "float_sum ws = foldl float_add 0 ws"

section \<open>Properties of the call termination detector\<close>

lemma starts_with_iff: "starts_with p s \<longleftrightarrow> (\<exists>b. s = p @ b)"
  by (induction p s rule: starts_with.induct) auto

lemma contains_iff: "contains p s \<longleftrightarrow> occurs_in p s"
proof (induction s)
  case Nil
  show ?case by (auto simp: occurs_in_def)
next
  case (Cons c cs)
  have "occurs_in p (c # cs) \<longleftrightarrow> (\<exists>b. c # cs = p @ b) \<or> occurs_in p cs"
    unfolding occurs_in_def by (auto simp: Cons_eq_append_conv) 
  with Cons show ?case by (simp add: starts_with_iff)
qed

lemma set_ws_rems: "set (ws_rems s) = {t. \<exists>w. s = w @ t \<and> list_all is_space w}"
proof (induction s)
  case Nil
  show ?case by auto
next
  case (Cons c cs)
  show ?case
  proof (cases "is_space c")
    case True
    with Cons show ?thesis by (auto simp: Cons_eq_append_conv) 
  next
    case False
    then show ?thesis by (auto simp: Cons_eq_append_conv) 
  qed
qed

lemma set_rx_rems: "set (rx_rems r s) = {t. \<exists>w \<in> rx_lang r. s = w @ t}"
proof (induction r arbitrary: s)
  case (Lit w)
  show ?case by (auto simp: starts_with_iff)
next
  case (Seq a b)
  show ?case by (auto simp: Seq) blast+
next
  case (Alt a b)
  show ?case by (auto simp: Alt)
next
  case (Opt a)
  show ?case by (auto simp: Opt)
next
  case Spaces0
  show ?case by (auto simp: set_ws_rems)
next
  case Spaces1
  show ?case by (cases s) (auto simp: set_ws_rems Cons_eq_append_conv)
qed

lemma rx_rems_nonempty: "rx_rems r s \<noteq> [] \<longleftrightarrow> (\<exists>w \<in> rx_lang r. \<exists>t. s = w @ t)"
proof -
  have "rx_rems r s \<noteq> [] \<longleftrightarrow> set (rx_rems r s) \<noteq> {}" by simp
  also have "\<dots> \<longleftrightarrow> (\<exists>w \<in> rx_lang r. \<exists>t. s = w @ t)"
    unfolding set_rx_rems by blast
  finally show ?thesis .
qed

lemma re_search_iff: "re_search r s \<longleftrightarrow> (\<exists>w \<in> rx_lang r. occurs_in w s)"
proof (induction s)
  case Nil
  show ?case by (auto simp: rx_rems_nonempty occurs_in_def)
next
  case (Cons c cs)
  have "(\<exists>w \<in> rx_lang r. occurs_in w (c # cs)) \<longleftrightarrow>
        (\<exists>w \<in> rx_lang r. \<exists>t. c # cs = w @ t) \<or> (\<exists>w \<in> rx_lang r. occurs_in w cs)"
  proof (intro iffI)
    assume "\<exists>w \<in> rx_lang r. occurs_in w (c # cs)"
    then obtain w a b where w: "w \<in> rx_lang r" and eq: "c # cs = a @ w @ b"
      unfolding occurs_in_def by blast
    show "(\<exists>w \<in> rx_lang r. \<exists>t. c # cs = w @ t) \<or> (\<exists>w \<in> rx_lang r. occurs_in w cs)"
    proof (cases a)
      case Nil
      with w eq show ?thesis by auto
    next
      case (Cons x a')
      with eq have "cs = a' @ w @ b" by simp
      with w show ?thesis unfolding occurs_in_def by blast
    qed
  next
    assume "(\<exists>w \<in> rx_lang r. \<exists>t. c # cs = w @ t) \<or> (\<exists>w \<in> rx_lang r. occurs_in w cs)"
    then show "\<exists>w \<in> rx_lang r. occurs_in w (c # cs)"
    proof
      assume "\<exists>w \<in> rx_lang r. \<exists>t. c # cs = w @ t"
      then obtain w t where "w \<in> rx_lang r" "c # cs = [] @ w @ t" by auto
      then show ?thesis unfolding occurs_in_def by blast
    next
      assume "\<exists>w \<in> rx_lang r. occurs_in w cs"
      then obtain w a b where "w \<in> rx_lang r" "cs = a @ w @ b"
        unfolding occurs_in_def by blast
      then have "w \<in> rx_lang r" "c # cs = (c # a) @ w @ b" by simp_all
      then show ?thesis unfolding occurs_in_def by blast
    qed
  qed
  with Cons show ?case by (simp add: rx_rems_nonempty del: rx_rems.simps)
qed

lemma phrase_loop_iff:
  "phrase_loop ps n \<longleftrightarrow> (\<exists>p \<in> set ps. p = n \<or> occurs_in p n)"
  by (induction ps) (auto simp: contains_iff)

lemma pattern_loop_iff:
  "pattern_loop rs n \<longleftrightarrow> (\<exists>r \<in> set rs. \<exists>w \<in> rx_lang r. occurs_in w n)"
  by (induction rs) (auto simp: re_search_iff)

lemma is_end_of_call_refines: "is_end_of_call text = spec_is_end_of_call text"
  by (simp add: is_end_of_call_def spec_is_end_of_call_def Let_def phrase_loop_iff pattern_loop_iff)

text \<open>
  Claim C5. The detector accepts "No thank you, that's all" and rejects
  "What about FHA loans?". For every text its result is the disjunction of the
  specification over the lowercased, trimmed text (a closing phrase equal to it or
  contained in it, or a pattern matching somewhere in it), and two texts that agree
  after lowercasing get the same result.
\<close>

theorem is_end_of_call_spec:
  "is_end_of_call ''No thank you, that's all'' \<and>
   \<not> is_end_of_call ''What about FHA loans?'' \<and>
   is_end_of_call text = spec_is_end_of_call text \<and>
   (lower s = lower t \<longrightarrow> is_end_of_call s = is_end_of_call t)"
proof (intro conjI impI)
  show "is_end_of_call ''No thank you, that's all''" by code_simp
  show "\<not> is_end_of_call ''What about FHA loans?''" by code_simp
  show "is_end_of_call text = spec_is_end_of_call text"
    by (rule is_end_of_call_refines)
  show "is_end_of_call s = is_end_of_call t" if "lower s = lower t"
    using that by (simp add: is_end_of_call_def)
qed

theorem is_end_of_call_spec_witness:
  "lower ''GOODBYE'' = lower ''Goodbye'' \<and>
   is_end_of_call ''GOODBYE'' = is_end_of_call ''Goodbye'' \<and>
   spec_is_end_of_call ''Goodbye''"
proof -
  have h: "lower ''GOODBYE'' = lower ''Goodbye''" by code_simp
  have e: "is_end_of_call ''Goodbye''" by code_simp
  from is_end_of_call_spec [of "''Goodbye''" "''GOODBYE''" "''Goodbye''"] h e
  show ?thesis by simp
qed

section \<open>Properties of the call handler\<close>

lemma map_of_delete_same: "map_of (AList.delete k al) k = None"
  by (simp add: delete_conv')

lemma map_of_update_same: "map_of (AList.update k v al) k = Some v"
  by (simp add: update_conv')

lemma map_of_delete_all:
  "map_of (foldl (\<lambda>al k. AList.delete k al) al ks) k =
     (if k \<in> set ks then None else map_of al k)"
  by (induction ks arbitrary: al) (auto simp: delete_conv')

text \<open>
  Claim C8. When a status update with a terminal status arrives for a call in the store,
  the call is removed from the store and the handler returns success, whether or not
  writing the history file succeeds.
\<close>

theorem handle_call_status_terminal_removes:
  assumes "map_of (active_calls h) (CallSid form) = Some call"
    and "CallStatus form = Some s"
    and "s \<in> set terminal_statuses"
  shows "map_of (active_calls (fst (handle_call_status write_ok now form h))) (CallSid form) = None
       \<and> snd (handle_call_status write_ok now form h) = StatusSuccess"
  using assms
  by (simp add: handle_call_status_def store_conversation_history_def Let_def
      map_of_delete_same)

theorem handle_call_status_terminal_removes_witness:
  "map_of (active_calls example_handler) (CallSid completed_form) = Some example_call
   \<and> CallStatus completed_form = Some ''completed''
   \<and> ''completed'' \<in> set terminal_statuses
   \<and> map_of (active_calls (fst (handle_call_status False 5 completed_form example_handler)))
        (CallSid completed_form) = None
   \<and> snd (handle_call_status False 5 completed_form example_handler) = StatusSuccess"
proof -
  have a: "map_of (active_calls example_handler) (CallSid completed_form) = Some example_call"
    by (simp add: example_handler_def completed_form_def)
  have b: "CallStatus completed_form = Some ''completed''"
    by (simp add: completed_form_def)
  have c: "''completed'' \<in> set terminal_statuses"
    by (simp add: terminal_statuses_def)
  from handle_call_status_terminal_removes [OF a b c, of False 5] a b c
  show ?thesis by simp
qed

section \<open>Properties of the cleanup sweeps\<close>

lemma key_in_filter_iff:
  assumes "distinct (map fst al)"
  shows "k \<in> set (map fst (filter P al)) \<longleftrightarrow> (\<exists>v. map_of al k = Some v \<and> P (k, v))"
proof
  assume "k \<in> set (map fst (filter P al))"
  then obtain v where "(k, v) \<in> set al" "P (k, v)" by auto
  with assms show "\<exists>v. map_of al k = Some v \<and> P (k, v)" by auto
next
  assume "\<exists>v. map_of al k = Some v \<and> P (k, v)"
  then obtain v where "map_of al k = Some v" "P (k, v)" by blast
  then have "(k, v) \<in> set (filter P al)" by (auto dest: map_of_SomeD)
  then show "k \<in> set (map fst (filter P al))" by force
qed

lemma cleanup_stale_conversations_lookup:
  assumes "0 < T" and "distinct (map fst (conversations m))"
  shows "map_of (conversations (fst (cleanup_stale_conversations T now m))) sid =
           (case map_of (conversations m) sid of
              None \<Rightarrow> None
            | Some c \<Rightarrow> if now - last_interaction_time (state c) > real_of_int T
                        then None else Some c)"
proof -
  have in_iff:
    "sid \<in> set (map fst (filter (\<lambda>(sid, conv). is_stale now T conv) (conversations m)))
       \<longleftrightarrow> (\<exists>v. map_of (conversations m) sid = Some v \<and> is_stale now T v)"
    using key_in_filter_iff [OF assms(2), of sid "\<lambda>(sid, conv). is_stale now T conv"]
    by simp
  show ?thesis
    using assms(1)
    by (cases "map_of (conversations m) sid")
      (simp_all add: cleanup_stale_conversations_def Let_def map_of_delete_all in_iff
        is_stale_def del: set_map)
qed

lemma map_of_stamped:
  "map_of (map (\<lambda>(k, v). (k, f v)) al) k = map_option f (map_of al k)"
  by (induction al) auto

lemma cleanup_stale_calls_lookup:
  assumes "distinct (map fst (active_calls h))"
  shows "map_of (active_calls (cleanup_stale_calls now h)) k =
           (case map_of (active_calls h) k of
              None \<Rightarrow> None
            | Some d \<Rightarrow>
                (case last_activity d of
                   None \<Rightarrow> Some (d\<lparr>last_activity := Some now\<rparr>)
                 | Some t \<Rightarrow> if now - t > 1800 then None else Some d))"
proof -
  have in_iff:
    "k \<in> set (map fst (filter (\<lambda>(call_sid, call_data). is_stale_call now call_data)
                             (active_calls h)))
       \<longleftrightarrow> (\<exists>v. map_of (active_calls h) k = Some v \<and> is_stale_call now v)"
    using key_in_filter_iff [OF assms, of k "\<lambda>(call_sid, call_data). is_stale_call now call_data"]
    by simp
  show ?thesis
  proof (cases "map_of (active_calls h) k")
    case None
    then show ?thesis
      by (simp add: cleanup_stale_calls_def Let_def map_of_delete_all in_iff
          map_of_stamped del: set_map)
  next
    case (Some d)
    then show ?thesis
      by (cases "last_activity d")
        (simp_all add: cleanup_stale_calls_def Let_def map_of_delete_all in_iff
          map_of_stamped del: set_map, simp_all add: is_stale_call_def)
  qed
qed

text \<open>
  Claim C7, amended. For every positive threshold \<open>T\<close>, one sweep of the conversation
  store removes a conversation exactly when \<open>now - last_interaction_time > T\<close> and
  leaves every other conversation as it was: a conversation last active at
  \<open>now - T - 1\<close> is removed, one last active at \<open>now - T + 1\<close> is retained. The sweep of
  the call store does the same with its fixed threshold of 1800 seconds. A threshold
  that is not positive is rejected: the sweep then leaves the manager as it was and
  reports that it removed nothing.
\<close>

theorem sweep_removes_exactly_the_stale:
  assumes "0 < T"
    and "distinct (map fst (conversations m))"
    and "map_of (conversations m) sid = Some c"
    and "distinct (map fst (active_calls h))"
    and "map_of (active_calls h) k = Some d"
    and "last_activity d = Some t"
  shows "(map_of (conversations (fst (cleanup_stale_conversations T now m))) sid = None
            \<longleftrightarrow> now - last_interaction_time (state c) > real_of_int T)
       \<and> (\<not> now - last_interaction_time (state c) > real_of_int T
            \<longrightarrow> map_of (conversations (fst (cleanup_stale_conversations T now m))) sid = Some c)
       \<and> (last_interaction_time (state c) = now - real_of_int T - 1
            \<longrightarrow> map_of (conversations (fst (cleanup_stale_conversations T now m))) sid = None)
       \<and> (last_interaction_time (state c) = now - real_of_int T + 1
            \<longrightarrow> map_of (conversations (fst (cleanup_stale_conversations T now m))) sid = Some c)
       \<and> (map_of (active_calls (cleanup_stale_calls now h)) k = None \<longleftrightarrow> now - t > 1800)
       \<and> (\<not> now - t > 1800 \<longrightarrow> map_of (active_calls (cleanup_stale_calls now h)) k = Some d)
       \<and> (T' \<le> 0 \<longrightarrow> cleanup_stale_conversations T' now m' = (m', 0))"
proof -
  have "T' \<le> 0 \<longrightarrow> cleanup_stale_conversations T' now m' = (m', 0)"
    by (simp add: cleanup_stale_conversations_def)
  with assms show ?thesis
    by (simp add: cleanup_stale_conversations_lookup cleanup_stale_calls_lookup)
qed

theorem sweep_removes_exactly_the_stale_witness:
  "map_of (conversations (fst (cleanup_stale_conversations 3600 3601 example_manager))) ''CA1''
     = None
   \<and> map_of (conversations (fst (cleanup_stale_conversations 3600 3599 example_manager))) ''CA1''
     = Some (new_conversation None 0)
   \<and> map_of (active_calls (cleanup_stale_calls 1801 example_handler)) (Some ''CA1'') = None
   \<and> map_of (active_calls (cleanup_stale_calls 1799 example_handler)) (Some ''CA1'')
     = Some example_call
   \<and> cleanup_stale_conversations 0 3601 example_manager = (example_manager, 0)
   \<and> cleanup_stale_conversations (- 5) 3601 example_manager = (example_manager, 0)"
proof -
  have a: "(0::int) < 3600" by simp
  have b: "distinct (map fst (conversations example_manager))"
    by (simp add: example_manager_def)
  have c: "map_of (conversations example_manager) ''CA1'' = Some (new_conversation None 0)"
    by (simp add: example_manager_def)
  have d: "distinct (map fst (active_calls example_handler))"
    by (simp add: example_handler_def)
  have e: "map_of (active_calls example_handler) (Some ''CA1'') = Some example_call"
    by (simp add: example_handler_def)
  have f: "last_activity example_call = Some 0"
    by (simp add: example_call_def)
  have g: "last_interaction_time (state (new_conversation None 0)) = 0"
    by (simp add: new_conversation_def)
  from sweep_removes_exactly_the_stale
         [OF a b c d e f, where now = 3601 and T' = 0 and m' = example_manager]
    sweep_removes_exactly_the_stale
         [OF a b c d e f, where now = 3601 and T' = "- 5" and m' = example_manager]
    sweep_removes_exactly_the_stale
         [OF a b c d e f, where now = 3599 and T' = 0 and m' = example_manager]
    sweep_removes_exactly_the_stale
         [OF a b c d e f, where now = 1801 and T' = 0 and m' = example_manager]
    sweep_removes_exactly_the_stale
         [OF a b c d e f, where now = 1799 and T' = 0 and m' = example_manager] g
  show ?thesis by simp
qed

text \<open>
  The claim as stated, for every threshold, fails at \<open>T = 0\<close>: the conversation was last
  active at \<open>now - T - 1\<close> and the sweep, which rejects a threshold that is not
  positive, keeps it.
\<close>

theorem sweep_zero_threshold_counterexample:
  "last_interaction_time (state (new_conversation None 0)) = 1 - real_of_int 0 - 1
   \<and> map_of (conversations example_manager) ''CA1'' = Some (new_conversation None 0)
   \<and> map_of (conversations (fst (cleanup_stale_conversations 0 1 example_manager))) ''CA1''
       = Some (new_conversation None 0)"
  by (simp add: cleanup_stale_conversations_def example_manager_def new_conversation_def)

section \<open>Properties of the speech handler\<close>

lemma generic_answer_length: "length generic_answer = 140"
  by (simp add: generic_answer_def)

lemma spoken_answer_length: "length (spoken_answer ai_response) \<le> 1000"
  by (cases ai_response)
    (auto simp: spoken_answer_def Let_def generic_answer_length)

lemma spoken_answer_cases:
  "spoken_answer PyNonStr = generic_answer"
  "s = [] \<or> strip s = [] \<Longrightarrow> spoken_answer (PyStr s) = generic_answer"
  "strip s \<noteq> [] \<Longrightarrow> length s \<le> 1000 \<Longrightarrow> spoken_answer (PyStr s) = s"
  "strip s \<noteq> [] \<Longrightarrow> 1000 < length s \<Longrightarrow> spoken_answer (PyStr s) = take 997 s @ ''...''"
  by (auto simp: spoken_answer_def Let_def generic_answer_length strip_def)

lemma get_call_history_update:
  "get_call_history k (h\<lparr>active_calls := AList.update k call (active_calls h)\<rparr>)
     = (case conversation_history call of None \<Rightarrow> [] | Some hist \<Rightarrow> hist)"
  by (simp add: get_call_history_def map_of_update_same)

lemma append_turn_history:
  assumes "map_of (active_calls h) k = Some call" and "conversation_history call = Some hist"
  shows "\<exists>h'. append_turn k t h = Some h' \<and> get_call_history k h' = hist @ [t]
           \<and> (\<exists>call'. map_of (active_calls h') k = Some call'
                 \<and> conversation_history call' = Some (hist @ [t]))"
  using assms by (simp add: append_turn_def get_call_history_update map_of_update_same)

lemma handle_speech_input_answer:
  fixes process_user_query :: "string \<Rightarrow> turn list \<Rightarrow> py_value"
  assumes speech: "SpeechResult form = Some q" "q \<noteq> []"
    and conf: "Confidence form = ConfVal c" "\<not> c < 0.3"
    and cont: "\<not> is_end_of_call q"
    and hist: "(map_of (active_calls h) (CallSid form) = None \<and> hist = [])
             \<or> (\<exists>call. map_of (active_calls h) (CallSid form) = Some call
                   \<and> conversation_history call = Some hist)"
  defines "user_turn \<equiv> \<lparr>turn_role = ''user'', turn_content = PyStr q\<rparr>"
  defines "ai_response \<equiv> process_user_query q (hist @ [user_turn])"
  shows "snd (handle_speech_input process_user_query now form h)
           = map Say (chunk_response (spoken_answer ai_response) 150)
             @ [Gather ''Do you have another real estate question I can help with?'',
                Say ''I didn't hear anything. Let me ask one more time.'', Redirect]"
    and "get_call_history (CallSid form) (fst (handle_speech_input process_user_query now form h))
           = hist @ [user_turn, \<lparr>turn_role = ''assistant'', turn_content = ai_response\<rparr>]"
proof -
  define h1 where "h1 =
     (case map_of (active_calls h) (CallSid form) of
        None \<Rightarrow>
          h\<lparr>active_calls := AList.update (CallSid form)
              \<lparr>to_number = None, call_status = Some ''in-progress'',
               conversation_state = ''in-progress'',
               conversation_history = Some [], last_activity = Some now\<rparr>
              (active_calls h)\<rparr>
      | Some call \<Rightarrow>
          h\<lparr>active_calls := AList.update (CallSid form)
              (call\<lparr>last_activity := Some now\<rparr>) (active_calls h)\<rparr>)"
  from hist obtain call1 where c1: "map_of (active_calls h1) (CallSid form) = Some call1"
      "conversation_history call1 = Some hist"
    by (auto simp: h1_def map_of_update_same)
  from append_turn_history [OF c1, of user_turn]
  obtain h2 call2 where h2: "append_turn (CallSid form) user_turn h1 = Some h2"
      "get_call_history (CallSid form) h2 = hist @ [user_turn]"
      "map_of (active_calls h2) (CallSid form) = Some call2"
      "conversation_history call2 = Some (hist @ [user_turn])"
    by blast
  let ?a = "\<lparr>turn_role = ''assistant'', turn_content = ai_response\<rparr>"
  from append_turn_history [OF h2(3,4), of ?a]
  obtain h3 call3 where h3: "append_turn (CallSid form) ?a h2 = Some h3"
      "get_call_history (CallSid form) h3 = (hist @ [user_turn]) @ [?a]"
      "map_of (active_calls h3) (CallSid form) = Some call3"
      "conversation_history call3 = Some ((hist @ [user_turn]) @ [?a])"
    by blast
  have res: "handle_speech_input process_user_query now form h =
      (h3\<lparr>active_calls := AList.update (CallSid form)
             (call3\<lparr>conversation_state := ''in-progress''\<rparr>) (active_calls h3)\<rparr>,
       map Say (chunk_response (spoken_answer ai_response) 150)
         @ [Gather ''Do you have another real estate question I can help with?'',
            Say ''I didn't hear anything. Let me ask one more time.'', Redirect])"
    using speech conf cont h2 h3
    unfolding handle_speech_input_def h1_def [symmetric] Let_def
    by (simp add: user_turn_def [symmetric] ai_response_def [symmetric])
  show "snd (handle_speech_input process_user_query now form h)
           = map Say (chunk_response (spoken_answer ai_response) 150)
             @ [Gather ''Do you have another real estate question I can help with?'',
                Say ''I didn't hear anything. Let me ask one more time.'', Redirect]"
    by (simp add: res)
  show "get_call_history (CallSid form) (fst (handle_speech_input process_user_query now form h))
           = hist @ [user_turn, ?a]"
    by (simp add: res get_call_history_update h3)
qed

lemma fha_question_continues: "\<not> is_end_of_call ''What about FHA loans?''"
  by code_simp

lemma long_response_length: "length long_response = 1001"
  by (simp add: long_response_def)

text \<open>
  Claim C10, amended. For a speech input that passes the confidence check and is not
  classified as end-of-call, on a call that is new or has a history, the answer spoken
  back is the chunks of \<open>spoken_answer\<close> of the AI response: at most 1000 characters,
  the first 997 characters followed by "..." when the response is longer than 1000, the
  response itself when it is shorter and not blank, and the fixed non-empty generic
  answer when the response is blank or not a string. The assistant message appended to
  the history holds the AI response as it was returned, before that check and
  truncation.
\<close>

theorem handle_speech_input_spoken_answer_bounded:
  fixes process_user_query :: "string \<Rightarrow> turn list \<Rightarrow> py_value"
  assumes "SpeechResult form = Some q" and "q \<noteq> []"
    and "Confidence form = ConfVal c" and "\<not> c < 0.3"
    and "\<not> is_end_of_call q"
    and "(map_of (active_calls h) (CallSid form) = None \<and> hist = [])
       \<or> (\<exists>call. map_of (active_calls h) (CallSid form) = Some call
             \<and> conversation_history call = Some hist)"
    and "ai_response =
           process_user_query q (hist @ [\<lparr>turn_role = ''user'', turn_content = PyStr q\<rparr>])"
  shows "snd (handle_speech_input process_user_query now form h)
           = map Say (chunk_response (spoken_answer ai_response) 150)
             @ [Gather ''Do you have another real estate question I can help with?'',
                Say ''I didn't hear anything. Let me ask one more time.'', Redirect]
       \<and> length (spoken_answer ai_response) \<le> 1000
       \<and> (\<forall>s. ai_response = PyStr s \<and> strip s \<noteq> [] \<and> 1000 < length s
              \<longrightarrow> spoken_answer ai_response = take 997 s @ ''...'')
       \<and> (\<forall>s. ai_response = PyStr s \<and> strip s \<noteq> [] \<and> length s \<le> 1000
              \<longrightarrow> spoken_answer ai_response = s)
       \<and> (ai_response = PyNonStr \<or> (\<exists>s. ai_response = PyStr s \<and> strip s = [])
              \<longrightarrow> spoken_answer ai_response = generic_answer)
       \<and> generic_answer \<noteq> []
       \<and> get_call_history (CallSid form)
             (fst (handle_speech_input process_user_query now form h))
           = hist @ [\<lparr>turn_role = ''user'', turn_content = PyStr q\<rparr>,
                     \<lparr>turn_role = ''assistant'', turn_content = ai_response\<rparr>]"
proof -
  have "generic_answer \<noteq> []"
    using generic_answer_length by auto
  moreover have "spoken_answer ai_response = generic_answer"
    if "ai_response = PyNonStr \<or> (\<exists>s. ai_response = PyStr s \<and> strip s = [])"
    using that spoken_answer_cases(1,2) by auto
  ultimately show ?thesis
    using handle_speech_input_answer [OF assms(1-6), of process_user_query now]
      spoken_answer_length [of ai_response] spoken_answer_cases(3,4)
    unfolding assms(7) [symmetric]
    by blast
qed

theorem handle_speech_input_spoken_answer_bounded_witness:
  "get_call_history (Some ''CA1'') (fst (handle_speech_input respond_long 1 speech_form example_handler))
     = [\<lparr>turn_role = ''user'', turn_content = PyStr ''What about FHA loans?''\<rparr>,
        \<lparr>turn_role = ''assistant'', turn_content = PyStr long_response\<rparr>]
   \<and> length (spoken_answer (PyStr long_response)) \<le> 1000"
proof -
  have a: "SpeechResult speech_form = Some ''What about FHA loans?''"
    by (simp add: speech_form_def)
  have b: "''What about FHA loans?'' \<noteq> []" by simp
  have c: "Confidence speech_form = ConfVal 0.9" by (simp add: speech_form_def)
  have d: "\<not> (0.9::real) < 0.3" by simp
  have e: "(map_of (active_calls example_handler) (CallSid speech_form) = None \<and> [] = [])
       \<or> (\<exists>call. map_of (active_calls example_handler) (CallSid speech_form) = Some call
             \<and> conversation_history call = Some [])"
    by (simp add: example_handler_def speech_form_def example_call_def)
  have f: "PyStr long_response = respond_long ''What about FHA loans?''
             ([] @ [\<lparr>turn_role = ''user'', turn_content = PyStr ''What about FHA loans?''\<rparr>])"
    by (simp add: respond_long_def)
  have g: "CallSid speech_form = Some ''CA1''" by (simp add: speech_form_def)
  from handle_speech_input_spoken_answer_bounded
         [where process_user_query = respond_long and now = 1,
          OF a b c d fha_question_continues e f] g
  show ?thesis by simp
qed

text \<open>
  The claim as stated fails for the history: with an AI response of 1001 characters the
  assistant message appended to the history holds all 1001 of them.
\<close>

theorem history_keeps_long_answer_counterexample:
  "get_call_history (Some ''CA1'') (fst (handle_speech_input respond_long 1 speech_form example_handler))
     = [\<lparr>turn_role = ''user'', turn_content = PyStr ''What about FHA loans?''\<rparr>,
        \<lparr>turn_role = ''assistant'', turn_content = PyStr long_response\<rparr>]
   \<and> \<not> length long_response \<le> 1000"
proof -
  have a: "SpeechResult speech_form = Some ''What about FHA loans?''"
    by (simp add: speech_form_def)
  have b: "''What about FHA loans?'' \<noteq> []" by simp
  have c: "Confidence speech_form = ConfVal 0.9" by (simp add: speech_form_def)
  have d: "\<not> (0.9::real) < 0.3" by simp
  have e: "(map_of (active_calls example_handler) (CallSid speech_form) = None \<and> [] = [])
       \<or> (\<exists>call. map_of (active_calls example_handler) (CallSid speech_form) = Some call
             \<and> conversation_history call = Some [])"
    by (simp add: example_handler_def speech_form_def example_call_def)
  have g: "CallSid speech_form = Some ''CA1''" by (simp add: speech_form_def)
  from handle_speech_input_answer(2)
         [where process_user_query = respond_long and now = 1,
          OF a b c d fha_question_continues e] g
  show ?thesis by (simp add: respond_long_def long_response_length)
qed

section \<open>Properties of the interruption handling\<close>

lemma threshold_manager_eval:
  "threshold_manager =
     \<lparr>conversations =
        [(''CA1'', (new_conversation None 0)
            \<lparr>interruption_management :=
               \<lparr>active_response_token = None, can_interrupt = True, interrupt_threshold = 3\<rparr>\<rparr>)],
      active_responses =
        [(''r1'', \<lparr>call_sid = ''CA1'', start_time = 1, response_metadata = [],
                   status = ''interrupted'', interruption_count = 3,
                   interrupt_reason = None\<rparr>)],
      max_history_length = 10\<rparr>"
  by (simp add: threshold_manager_def tracked_manager_def example_manager_def
      track_active_response_def handle_response_interruption_def new_conversation_def
      or_empty_def Let_def)

lemma disabled_manager_eval:
  "disabled_manager =
     \<lparr>conversations =
        [(''CA1'', (new_conversation None 0)
            \<lparr>interruption_management :=
               \<lparr>active_response_token = None, can_interrupt = False, interrupt_threshold = 3\<rparr>\<rparr>)],
      active_responses =
        [(''r1'', \<lparr>call_sid = ''CA1'', start_time = 1, response_metadata = [],
                   status = ''interrupted'', interruption_count = 4,
                   interrupt_reason = None\<rparr>)],
      max_history_length = 10\<rparr>"
  by (simp add: disabled_manager_def threshold_manager_eval
      handle_response_interruption_def new_conversation_def Let_def)

lemma interruption_over_threshold:
  assumes "response_token \<noteq> []"
    and "map_of (active_responses m) response_token = Some info"
    and "map_of (conversations m) (call_sid info) = Some conversation"
    and "interrupt_threshold (interruption_management conversation) \<le> interruption_count info"
  shows "handle_response_interruption response_token reason m =
           (m\<lparr>active_responses :=
                 AList.update response_token
                   (info\<lparr>status := ''interrupted'', interrupt_reason := reason,
                         interruption_count := interruption_count info + 1\<rparr>)
                   (active_responses m),
               conversations :=
                 AList.update (call_sid info)
                   (conversation\<lparr>interruption_management :=
                      (interruption_management conversation)\<lparr>can_interrupt := False\<rparr>\<rparr>)
                   (conversations m)\<rparr>,
            \<lparr>success = False, result_message = ''Maximum interruptions reached'',
             reported_count = None\<rparr>)"
  using assms by (simp add: handle_response_interruption_def Let_def)

text \<open>
  Claim C1, amended. When the interruption count of a response equals the threshold of
  its session, interrupting it sets \<open>can_interrupt\<close> to false (and that attempt already
  returns failure). One further attempt on the same response is rejected as well; it
  leaves the conversation store, and with it the session's interruption management,
  unchanged and the response's status at "interrupted", but it raises the response's
  interruption count by one more and stores the new reason.
\<close>

theorem interruption_at_threshold_disables:
  assumes "response_token \<noteq> []"
    and "map_of (active_responses m) response_token = Some info"
    and "map_of (conversations m) (call_sid info) = Some conversation"
    and "interruption_count info = interrupt_threshold (interruption_management conversation)"
    and "m1 = fst (handle_response_interruption response_token reason m)"
    and "m2 = fst (handle_response_interruption response_token reason' m1)"
  shows "map_of (conversations m1) (call_sid info) =
           Some (conversation\<lparr>interruption_management :=
                   (interruption_management conversation)\<lparr>can_interrupt := False\<rparr>\<rparr>)
       \<and> \<not> success (snd (handle_response_interruption response_token reason m))
       \<and> \<not> success (snd (handle_response_interruption response_token reason' m1))
       \<and> conversations m2 = conversations m1
       \<and> map_of (active_responses m1) response_token =
             Some (info\<lparr>status := ''interrupted'', interrupt_reason := reason,
                        interruption_count := interruption_count info + 1\<rparr>)
       \<and> map_of (active_responses m2) response_token =
             Some (info\<lparr>status := ''interrupted'', interrupt_reason := reason',
                        interruption_count := interruption_count info + 2\<rparr>)"
proof -
  let ?info1 = "info\<lparr>status := ''interrupted'', interrupt_reason := reason,
                     interruption_count := interruption_count info + 1\<rparr>"
  let ?conv1 = "conversation\<lparr>interruption_management :=
                   (interruption_management conversation)\<lparr>can_interrupt := False\<rparr>\<rparr>"
  have le: "interrupt_threshold (interruption_management conversation) \<le> interruption_count info"
    using assms(4) by simp
  note first = interruption_over_threshold [OF assms(1-3) le, of reason]
  have m1: "m1 = m\<lparr>active_responses := AList.update response_token ?info1 (active_responses m),
                     conversations := AList.update (call_sid info) ?conv1 (conversations m)\<rparr>"
    using first assms(5) by simp
  have r1: "map_of (active_responses m1) response_token = Some ?info1"
    by (simp add: m1 map_of_update_same)
  have c1: "map_of (conversations m1) (call_sid ?info1) = Some ?conv1"
    by (simp add: m1 map_of_update_same)
  have le1: "interrupt_threshold (interruption_management ?conv1) \<le> interruption_count ?info1"
    using assms(4) by simp
  note second = interruption_over_threshold [OF assms(1) r1 c1 le1, of reason']
  have same: "AList.update (call_sid info) ?conv1 (conversations m1) = conversations m1"
    using c1 by (intro update_triv) simp
  have m2: "m2 = m1\<lparr>active_responses :=
                       AList.update response_token
                         (?info1\<lparr>status := ''interrupted'', interrupt_reason := reason',
                                 interruption_count := interruption_count ?info1 + 1\<rparr>)
                         (active_responses m1)\<rparr>"
    using second assms(6) same by simp
  show ?thesis
    using first second c1 r1 by (simp add: m2 map_of_update_same)
qed

theorem interruption_at_threshold_disables_witness:
  "map_of (conversations disabled_manager) ''CA1'' =
     Some ((new_conversation None 0)
            \<lparr>interruption_management :=
               \<lparr>active_response_token = None, can_interrupt = False, interrupt_threshold = 3\<rparr>\<rparr>)
   \<and> \<not> success (snd (handle_response_interruption ''r1'' (Some ''again'') disabled_manager))
   \<and> conversations (fst (handle_response_interruption ''r1'' (Some ''again'') disabled_manager))
       = conversations disabled_manager"
proof -
  let ?info = "\<lparr>call_sid = ''CA1'', start_time = 1, response_metadata = [],
                status = ''interrupted'', interruption_count = 3, interrupt_reason = None\<rparr>"
  let ?conv = "(new_conversation None 0)
            \<lparr>interruption_management :=
               \<lparr>active_response_token = None, can_interrupt = True, interrupt_threshold = 3\<rparr>\<rparr>"
  have a: "''r1'' \<noteq> []" by simp
  have b: "map_of (active_responses threshold_manager) ''r1'' = Some ?info"
    by (simp add: threshold_manager_eval)
  have c: "map_of (conversations threshold_manager) (call_sid ?info) = Some ?conv"
    by (simp add: threshold_manager_eval)
  have d: "interruption_count ?info = interrupt_threshold (interruption_management ?conv)"
    by simp
  have e: "disabled_manager = fst (handle_response_interruption ''r1'' None threshold_manager)"
    by (simp add: disabled_manager_def)
  from interruption_at_threshold_disables [OF a b c d e refl, of "Some ''again''"]
  show ?thesis by simp
qed

text \<open>
  The claim as stated fails: at the threshold (count 3, threshold 3) the next attempt
  disables interruption, and the attempt after it, though rejected, changes the
  response's interruption count from 4 to 5.
\<close>

theorem rejected_interruption_counts_counterexample:
  "map_option interruption_count (map_of (active_responses threshold_manager) ''r1'') = Some 3
   \<and> map_option (interrupt_threshold \<circ> interruption_management)
         (map_of (conversations threshold_manager) ''CA1'') = Some 3
   \<and> map_option (can_interrupt \<circ> interruption_management)
         (map_of (conversations disabled_manager) ''CA1'') = Some False
   \<and> \<not> success (snd (handle_response_interruption ''r1'' None disabled_manager))
   \<and> map_option interruption_count (map_of (active_responses disabled_manager) ''r1'') = Some 4
   \<and> map_option interruption_count
         (map_of (active_responses (fst (handle_response_interruption ''r1'' None disabled_manager)))
            ''r1'') = Some 5"
  by (simp add: threshold_manager_eval disabled_manager_eval
      handle_response_interruption_def new_conversation_def Let_def)

section \<open>Properties of the interruption switch\<close>

lemma map_of_update_other: "k' \<noteq> k \<Longrightarrow> map_of (AList.update k v al) k' = map_of al k'"
  by (simp add: update_conv')

lemma initialize_conversation_keeps:
  "map_of (conversations m) sid = Some c \<Longrightarrow>
   map_of (conversations (fst (initialize_conversation sid' ctx now m))) sid = Some c"
  by (auto simp: initialize_conversation_def update_conv')

lemma initialize_if_missing_keeps:
  assumes "map_of (conversations m) sid = Some c"
  shows "map_of (conversations (fst (if map_of (conversations m) sid' = None
                                       then initialize_conversation sid' ctx now m
                                       else (m, True)))) sid = Some c"
  using assms by (simp add: initialize_conversation_keeps)

lemma add_follow_up_context_policy:
  assumes "map_of (conversations m) sid = Some c"
    and "map_of (conversations (fst (add_follow_up_context sid' ts qs ks now m))) sid = Some c'"
  shows "interruption_management c' = interruption_management c"
proof (cases "sid' = sid")
  case True
  with assms show ?thesis
    by (auto simp: add_follow_up_context_def Let_def map_of_update_same split: if_splits)
next
  case False
  with assms initialize_conversation_keeps [OF assms(1), of sid' None now] show ?thesis
    by (auto simp: add_follow_up_context_def Let_def map_of_update_other
        split: if_splits prod.splits option.splits)
qed

lemma update_conversation_intent_policy:
  assumes "map_of (conversations m) sid = Some c"
    and "map_of (conversations (update_conversation_intent sid' text m)) sid = Some c'"
  shows "interruption_management c' = interruption_management c"
  using assms
  by (cases "sid' = sid")
    (auto simp: update_conversation_intent_def map_of_update_same map_of_update_other
      split: if_splits option.splits)

lemma add_conversation_message_policy:
  assumes "map_of (conversations m) sid = Some c"
    and "map_of (conversations (fst (add_conversation_message sid' r text md now m))) sid = Some c'"
  shows "interruption_management c' = interruption_management c"
proof (cases "sid' = sid")
  case True
  with assms show ?thesis
    by (auto simp: add_conversation_message_def Let_def map_of_update_same
        split: if_splits option.splits
        dest!: update_conversation_intent_policy [rotated])
next
  case False
  with assms initialize_conversation_keeps [OF assms(1), of sid' None now] show ?thesis
    by (auto simp: add_conversation_message_def Let_def map_of_update_other
        split: if_splits prod.splits option.splits
        dest!: update_conversation_intent_policy [rotated])
qed

lemma handle_response_interruption_policy:
  assumes "map_of (conversations m) sid = Some c"
    and "map_of (conversations (fst (handle_response_interruption token reason m))) sid = Some c'"
    and "\<not> can_interrupt (interruption_management c)"
  shows "\<not> can_interrupt (interruption_management c')"
proof (cases "map_of (active_responses m) token")
  case None
  with assms show ?thesis
    by (auto simp: handle_response_interruption_def split: if_splits)
next
  case (Some info)
  show ?thesis
  proof (cases "call_sid info = sid")
    case True
    with assms Some show ?thesis
      by (auto simp: handle_response_interruption_def Let_def map_of_update_same
          split: if_splits)
  next
    case False
    with assms Some show ?thesis
      by (auto simp: handle_response_interruption_def Let_def map_of_update_other
          split: if_splits option.splits)
  qed
qed

lemma track_other_policy:
  assumes "map_of (conversations m) sid = Some c"
    and "map_of (conversations (fst (track_active_response sid' token md now m))) sid = Some c'"
    and "sid' \<noteq> sid"
  shows "c' = c"
  using assms initialize_conversation_keeps [OF assms(1), of sid' None now]
  by (auto simp: track_active_response_def Let_def map_of_update_other
      split: if_splits prod.splits option.splits)

lemma cleanup_keeps:
  assumes "map_of (conversations m) sid = Some c"
  shows "map_of (conversations (fst (cleanup_stale_conversations age now m))) sid = Some c'
           \<Longrightarrow> c' = c"
    and "map_of (conversations (fst (cleanup_conversation sid' m))) sid = Some c' \<Longrightarrow> c' = c"
  using assms
  by (auto simp: cleanup_stale_conversations_def cleanup_conversation_def Let_def
      map_of_delete_all delete_conv' simp del: set_map split: if_splits)

lemma track_enables:
  assumes "sid \<noteq> []" and "token \<noteq> []"
  shows "\<exists>c. map_of (conversations (fst (track_active_response sid token md now m))) sid = Some c
             \<and> can_interrupt (interruption_management c)
             \<and> active_response_token (interruption_management c) = Some token"
proof (cases "map_of (conversations m) sid")
  case None
  with assms show ?thesis
    by (simp add: track_active_response_def initialize_conversation_def Let_def
        map_of_update_same)
next
  case (Some c)
  with assms show ?thesis
    by (simp add: track_active_response_def Let_def map_of_update_same)
qed

lemma initialize_conversation_creates:
  assumes "map_of (conversations m) sid = None"
    and "map_of (conversations (fst (initialize_conversation sid' ctx now m))) sid = Some c'"
  shows "sid' = sid \<and> sid \<noteq> [] \<and> c' = new_conversation ctx now"
  using assms
  by (cases "sid' = sid")
    (auto simp: initialize_conversation_def map_of_update_same map_of_update_other
      split: if_splits)

lemma new_conversation_can_interrupt:
  "can_interrupt (interruption_management (new_conversation ctx now))"
  by (simp add: new_conversation_def)

lemma add_follow_up_context_creates:
  assumes "map_of (conversations m) sid = None"
    and "map_of (conversations (fst (add_follow_up_context sid' ts qs ks now m))) sid = Some c'"
  shows "can_interrupt (interruption_management c')"
proof (cases "sid' = sid")
  case True
  with assms show ?thesis
    by (auto simp: add_follow_up_context_def initialize_conversation_def Let_def
        map_of_update_same new_conversation_def split: if_splits)
next
  case False
  with assms show ?thesis
    by (auto simp: add_follow_up_context_def initialize_conversation_def Let_def
        map_of_update_same map_of_update_other split: if_splits option.splits)
qed

lemma track_active_response_creates:
  assumes "map_of (conversations m) sid = None"
    and "map_of (conversations (fst (track_active_response sid' token md now m))) sid = Some c'"
  shows "can_interrupt (interruption_management c')"
proof (cases "sid' = sid")
  case True
  with assms show ?thesis
    by (auto simp: track_active_response_def initialize_conversation_def Let_def
        map_of_update_same split: if_splits)
next
  case False
  with assms show ?thesis
    by (auto simp: track_active_response_def initialize_conversation_def Let_def
        map_of_update_same map_of_update_other split: if_splits option.splits)
qed

lemma update_conversation_intent_absent:
  "map_of (conversations m) sid = None \<Longrightarrow>
   map_of (conversations (update_conversation_intent sid' body m)) sid = None"
  by (cases "sid' = sid")
    (auto simp: update_conversation_intent_def map_of_update_other split: option.splits)

lemma add_conversation_message_creates:
  assumes "map_of (conversations m) sid = None"
    and "map_of (conversations (fst (add_conversation_message sid' r body md now m))) sid = Some c'"
  shows "can_interrupt (interruption_management c')"
proof (cases "sid' = sid")
  case True
  with assms show ?thesis
    by (auto simp: add_conversation_message_def initialize_conversation_def Let_def
        map_of_update_same new_conversation_def
        split: if_splits option.splits
        dest!: update_conversation_intent_policy [rotated])
next
  case False
  have "map_of (conversations (fst (add_conversation_message sid' r body md now m))) sid = None"
    using assms(1) False
    by (auto simp: add_conversation_message_def initialize_conversation_def Let_def
        map_of_update_same map_of_update_other update_conversation_intent_absent
        split: if_splits option.splits)
  with assms(2) show ?thesis by simp
qed

lemma handle_response_interruption_absent:
  "map_of (conversations m) sid = None \<Longrightarrow>
   map_of (conversations (fst (handle_response_interruption token reason m))) sid = None"
proof (cases "map_of (active_responses m) token")
  case None
  assume "map_of (conversations m) sid = None"
  with None show ?thesis
    by (auto simp: handle_response_interruption_def split: if_splits)
next
  case (Some info)
  assume absent: "map_of (conversations m) sid = None"
  show ?thesis
  proof (cases "call_sid info = sid")
    case True
    with absent Some show ?thesis
      by (auto simp: handle_response_interruption_def Let_def split: if_splits)
  next
    case False
    with absent Some show ?thesis
      by (auto simp: handle_response_interruption_def Let_def map_of_update_other
          split: if_splits option.splits)
  qed
qed

lemma cleanup_absent:
  assumes "map_of (conversations m) sid = None"
  shows "map_of (conversations (fst (cleanup_stale_conversations age now m))) sid = None"
    and "map_of (conversations (fst (cleanup_conversation sid' m))) sid = None"
  using assms
  by (auto simp: cleanup_stale_conversations_def cleanup_conversation_def Let_def
      map_of_delete_all delete_conv' simp del: set_map)

lemma cleanup_conversation_removes:
  "sid \<noteq> [] \<Longrightarrow> map_of (conversations (fst (cleanup_conversation sid m))) sid = None"
  by (simp add: cleanup_conversation_def Let_def map_of_delete_same)

lemma recreated_can_interrupt:
  assumes "map_of (conversations m) sid = None"
    and "map_of (conversations (apply_operation now opn m)) sid = Some c'"
  shows "can_interrupt (interruption_management c')"
proof (cases opn)
  case (Initialize sid' ctx)
  with assms initialize_conversation_creates [OF assms(1), of sid' ctx now c']
  show ?thesis by (simp add: new_conversation_can_interrupt)
next
  case (AddFollowUp sid' ts qs ks)
  with assms add_follow_up_context_creates [OF assms(1), of sid' ts qs ks now c']
  show ?thesis by simp
next
  case (Track sid' token md)
  with assms track_active_response_creates [OF assms(1), of sid' token md now c']
  show ?thesis by simp
next
  case (Interrupt token reason)
  with assms handle_response_interruption_absent [OF assms(1), of token reason]
  show ?thesis by simp
next
  case (AddMessage sid' r body md)
  with assms add_conversation_message_creates [OF assms(1), of sid' r body md now c']
  show ?thesis by simp
next
  case (CleanupStale age)
  with assms cleanup_absent(1) [OF assms(1), of age now] show ?thesis by simp
next
  case (Cleanup sid')
  with assms cleanup_absent(2) [OF assms(1), of sid'] show ?thesis by simp
next
  case (UpdateIntent sid' user_content)
  with assms update_conversation_intent_absent [OF assms(1), of sid' user_content]
  show ?thesis by simp
next
  case (Evaluate sid' new_query)
  with assms show ?thesis by simp
next
  case (GetContext sid' max_messages)
  with assms show ?thesis by simp
qed

text \<open>
  Claim C4, amended. Once \<open>can_interrupt\<close> is false for a session it stays false under
  every operation of the manager that keeps the session, except
  \<open>track_active_response\<close> for that call: registering a new active response for the
  same call sets \<open>can_interrupt\<close> back to true. \<open>cleanup_conversation\<close> removes the
  session, and whenever an operation recreates a session that is not in the store, the
  new session has \<open>can_interrupt\<close> true.
\<close>

theorem can_interrupt_stays_false_until_tracked:
  assumes "map_of (conversations m) sid = Some c"
    and "\<not> can_interrupt (interruption_management c)"
  shows "((\<forall>token md. opn \<noteq> Track sid token md)
            \<and> map_of (conversations (apply_operation now opn m)) sid = Some c'
          \<longrightarrow> \<not> can_interrupt (interruption_management c'))
       \<and> (sid \<noteq> [] \<and> token \<noteq> []
          \<longrightarrow> (\<exists>c''. map_of (conversations (apply_operation now (Track sid token md) m)) sid
                       = Some c''
                     \<and> can_interrupt (interruption_management c'')))
       \<and> (sid \<noteq> []
          \<longrightarrow> map_of (conversations (apply_operation now (Cleanup sid) m)) sid = None)
       \<and> (map_of (conversations mr) sid = None
            \<and> map_of (conversations (apply_operation nowr opr mr)) sid = Some cr
          \<longrightarrow> can_interrupt (interruption_management cr))"
proof (intro conjI impI)
  assume h: "(\<forall>token md. opn \<noteq> Track sid token md)
            \<and> map_of (conversations (apply_operation now opn m)) sid = Some c'"
  show "\<not> can_interrupt (interruption_management c')"
  proof (cases opn)
    case (Initialize sid' ctx)
    with h initialize_conversation_keeps [OF assms(1), of sid' ctx now] assms(2)
    show ?thesis by simp
  next
    case (AddFollowUp sid' ts qs ks)
    with h add_follow_up_context_policy [OF assms(1), of sid' ts qs ks now c'] assms(2)
    show ?thesis by simp
  next
    case (Track sid' token' md')
    with h have "sid' \<noteq> sid" by auto
    with Track h track_other_policy [OF assms(1), of sid' token' md' now c'] assms(2)
    show ?thesis by simp
  next
    case (Interrupt token' reason)
    with h handle_response_interruption_policy [OF assms(1) _ assms(2), of token' reason c']
    show ?thesis by simp
  next
    case (AddMessage sid' r body md')
    with h add_conversation_message_policy [OF assms(1), of sid' r body md' now c'] assms(2)
    show ?thesis by simp
  next
    case (CleanupStale age)
    with h cleanup_keeps(1) [OF assms(1), of age now c'] assms(2)
    show ?thesis by simp
  next
    case (Cleanup sid')
    with h cleanup_keeps(2) [OF assms(1), of sid' c'] assms(2)
    show ?thesis by simp
  next
    case (UpdateIntent sid' user_content)
    with h update_conversation_intent_policy [OF assms(1), of sid' user_content c'] assms(2)
    show ?thesis by simp
  next
    case (Evaluate sid' new_query)
    with h assms show ?thesis by simp
  next
    case (GetContext sid' max_messages)
    with h assms show ?thesis by simp
  qed
next
  assume "sid \<noteq> [] \<and> token \<noteq> []"
  then show "\<exists>c''. map_of (conversations (apply_operation now (Track sid token md) m)) sid
                       = Some c''
                     \<and> can_interrupt (interruption_management c'')"
    using track_enables [of sid token md now m] by auto
next
  assume "sid \<noteq> []"
  then show "map_of (conversations (apply_operation now (Cleanup sid) m)) sid = None"
    by (simp add: cleanup_conversation_removes)
next
  assume "map_of (conversations mr) sid = None
            \<and> map_of (conversations (apply_operation nowr opr mr)) sid = Some cr"
  then show "can_interrupt (interruption_management cr)"
    using recreated_can_interrupt [of mr sid nowr opr cr] by blast
qed

theorem can_interrupt_stays_false_until_tracked_witness:
  "map_of (conversations disabled_manager) ''CA1'' =
     Some ((new_conversation None 0)
            \<lparr>interruption_management :=
               \<lparr>active_response_token = None, can_interrupt = False, interrupt_threshold = 3\<rparr>\<rparr>)
   \<and> map_option (can_interrupt \<circ> interruption_management)
       (map_of (conversations (apply_operation 6 (Interrupt ''r1'' None) disabled_manager))
          ''CA1'') = Some False
   \<and> map_option (can_interrupt \<circ> interruption_management)
       (map_of (conversations (apply_operation 6 (Track ''CA1'' ''r2'' None) disabled_manager))
          ''CA1'') = Some True
   \<and> map_of (conversations (apply_operation 7 (Cleanup ''CA1'') disabled_manager)) ''CA1''
       = None
   \<and> map_option (can_interrupt \<circ> interruption_management)
       (map_of (conversations
                  (apply_operation 8 (Initialize ''CA1'' None)
                     (apply_operation 7 (Cleanup ''CA1'') disabled_manager)))
          ''CA1'') = Some True"
proof -
  let ?c = "(new_conversation None 0)
            \<lparr>interruption_management :=
               \<lparr>active_response_token = None, can_interrupt = False, interrupt_threshold = 3\<rparr>\<rparr>"
  have a: "map_of (conversations disabled_manager) ''CA1'' = Some ?c"
    by (simp add: disabled_manager_eval)
  have b: "\<not> can_interrupt (interruption_management ?c)" by simp
  have c: "\<forall>token md. Interrupt ''r1'' None \<noteq> Track ''CA1'' token md" by simp
  have d: "''CA1'' \<noteq> [] \<and> ''r2'' \<noteq> []" by simp
  obtain c' where e:
    "map_of (conversations (apply_operation 6 (Interrupt ''r1'' None) disabled_manager)) ''CA1''
       = Some c'"
    by (simp add: disabled_manager_eval handle_response_interruption_def Let_def)
  from can_interrupt_stays_false_until_tracked
         [OF a b, where opn = "Interrupt ''r1'' None" and now = 6 and c' = c'
            and token = "''r2''" and md = None] c d e
  have "\<not> can_interrupt (interruption_management c')"
    and "\<exists>c''. map_of (conversations (apply_operation 6 (Track ''CA1'' ''r2'' None)
                                          disabled_manager)) ''CA1'' = Some c''
               \<and> can_interrupt (interruption_management c'')"
    by blast+
  note kept = this
  let ?removed = "apply_operation 7 (Cleanup ''CA1'') disabled_manager"
  from can_interrupt_stays_false_until_tracked [OF a b, where now = 7] d
  have f: "map_of (conversations ?removed) ''CA1'' = None"
    by blast
  then obtain cr where g:
    "map_of (conversations (apply_operation 8 (Initialize ''CA1'' None) ?removed)) ''CA1''
       = Some cr"
    by (simp add: initialize_conversation_def map_of_update_same)
  from can_interrupt_stays_false_until_tracked
         [OF a b, where mr = ?removed and nowr = 8 and opr = "Initialize ''CA1'' None"
            and cr = cr] f g
  have "can_interrupt (interruption_management cr)"
    by blast
  with kept a e f g show ?thesis by auto
qed

text \<open>
  The claim as stated fails: in \<open>disabled_manager\<close> interruption is disabled for the
  call, and registering a new active response for the same call enables it again.
\<close>

theorem track_reenables_interruption_counterexample:
  "map_option (can_interrupt \<circ> interruption_management)
     (map_of (conversations disabled_manager) ''CA1'') = Some False
   \<and> map_option (can_interrupt \<circ> interruption_management)
       (map_of (conversations (fst (track_active_response ''CA1'' ''r2'' None 6 disabled_manager)))
          ''CA1'') = Some True"
  by (simp add: disabled_manager_eval track_active_response_def new_conversation_def Let_def)

section \<open>Properties of the conversation history\<close>

lemma slice_from_last:
  assumes "0 < k" and "k < int (length xs)"
  shows "slice_from (- k) xs = drop (length xs - nat k) xs"
    and "int (length (slice_from (- k) xs)) = k"
proof -
  have "nat (int (length xs) - k) = length xs - nat k"
    using assms by linarith
  with assms show "slice_from (- k) xs = drop (length xs - nat k) xs"
    by (simp add: slice_from_def Let_def max_def)
  with assms show "int (length (slice_from (- k) xs)) = k"
    by simp
qed

lemma slice_from_zero: "slice_from 0 xs = xs"
  by (simp add: slice_from_def)

lemma context_history_lookup:
  "sid \<noteq> [] \<Longrightarrow>
   context_history (get_conversation_context sid None m) =
     (case map_of (conversations m) sid of None \<Rightarrow> [] | Some c \<Rightarrow> history c)"
  by (simp add: get_conversation_context_def split: option.splits)

lemma update_conversation_intent_history:
  "(case map_of (conversations (update_conversation_intent sid' body m)) sid of
      None \<Rightarrow> [] | Some c \<Rightarrow> history c)
     = (case map_of (conversations m) sid of None \<Rightarrow> [] | Some c \<Rightarrow> history c)"
  by (cases "sid' = sid")
    (auto simp: update_conversation_intent_def
      map_of_update_same map_of_update_other split: option.splits)

lemma add_conversation_message_history:
  fixes m :: manager and body :: string and now :: real
    and md :: "(string \<times> string) list option"
  assumes "sid \<noteq> []" and "r \<noteq> []"
  defines "old \<equiv> context_history (get_conversation_context sid None m)"
  defines "appended \<equiv> old @ [\<lparr>role = r, content = body, timestamp = now,
                                metadata = or_empty md,
                                message_id = sid @ ''_'' @ str_nat (length old + 1)\<rparr>]"
  shows "context_history (get_conversation_context sid None
           (fst (add_conversation_message sid r (Some body) md now m)))
         = (if int (length appended) > max_history_length m * 2
            then slice_from ((- max_history_length m) * 2) appended else appended)"
    and "snd (add_conversation_message sid r (Some body) md now m)"
proof -
  show "context_history (get_conversation_context sid None
           (fst (add_conversation_message sid r (Some body) md now m)))
         = (if int (length appended) > max_history_length m * 2
            then slice_from ((- max_history_length m) * 2) appended else appended)"
  proof (cases "map_of (conversations m) sid")
    case None
    with assms(1,2) show ?thesis
      unfolding appended_def old_def
      by (simp add: add_conversation_message_def initialize_conversation_def Let_def
          update_conversation_intent_history context_history_lookup map_of_update_same
          new_conversation_def)
  next
    case (Some c)
    with assms(1,2) show ?thesis
      unfolding appended_def old_def
      by (simp add: add_conversation_message_def Let_def
          update_conversation_intent_history context_history_lookup map_of_update_same)
  qed
  show "snd (add_conversation_message sid r (Some body) md now m)"
    using assms(1,2)
    by (cases "map_of (conversations m) sid")
      (simp_all add: add_conversation_message_def initialize_conversation_def Let_def
        map_of_update_same)
qed

lemma add_conversation_message_bounded:
  fixes m :: manager and body :: string and now :: real
    and md :: "(string \<times> string) list option"
  assumes "sid \<noteq> []" and "r \<noteq> []" and "0 < max_history_length m"
  defines "old \<equiv> context_history (get_conversation_context sid None m)"
  defines "appended \<equiv> old @ [\<lparr>role = r, content = body, timestamp = now,
                                metadata = or_empty md,
                                message_id = sid @ ''_'' @ str_nat (length old + 1)\<rparr>]"
  defines "new \<equiv> context_history (get_conversation_context sid None
                        (fst (add_conversation_message sid r (Some body) md now m)))"
  shows "int (length new) \<le> 2 * max_history_length m"
    and "new = drop (length appended - nat (2 * max_history_length m)) appended"
proof -
  let ?k = "max_history_length m * 2"
  have new: "new = (if int (length appended) > ?k then slice_from (- ?k) appended else appended)"
    using add_conversation_message_history(1)
            [OF assms(1,2), where m = m and body = body and now = now and md = md]
    unfolding new_def appended_def old_def by simp
  show "int (length new) \<le> 2 * max_history_length m"
  proof (cases "int (length appended) > ?k")
    case True
    with assms(3) slice_from_last(2) [of ?k appended] new show ?thesis by simp
  next
    case False
    with new show ?thesis by simp
  qed
  show "new = drop (length appended - nat (2 * max_history_length m)) appended"
  proof (cases "int (length appended) > ?k")
    case True
    with assms(3) slice_from_last(1) [of ?k appended] new show ?thesis
      by (simp add: mult.commute)
  next
    case False
    then have "length appended - nat (2 * max_history_length m) = 0" by linarith
    with False new show ?thesis by simp
  qed
qed

lemma str_nat_one: "str_nat (Suc 0) = ''1''"
  by code_simp

text \<open>
  Claim C2 at a manager built with \<open>max_history_length = 0\<close>: the first message is
  appended, the history (length 1) exceeds \<open>2 * 0\<close>, the slice \<open>history[-0:]\<close> is the
  whole list, and the history keeps its one message.
\<close>

theorem add_conversation_message_zero_capacity:
  "context_history (get_conversation_context ''CA1'' None
     (fst (add_conversation_message ''CA1'' ''user'' (Some ''hello'') None 1
             zero_capacity_manager)))
     = [\<lparr>role = ''user'', content = ''hello'', timestamp = 1, metadata = [],
         message_id = ''CA1_1''\<rparr>]
   \<and> 2 * max_history_length zero_capacity_manager = 0"
proof -
  have "context_history (get_conversation_context ''CA1'' None zero_capacity_manager) = []"
    by (simp add: get_conversation_context_def zero_capacity_manager_def)
  with add_conversation_message_history(1)
         [where sid = "''CA1''" and r = "''user''" and m = zero_capacity_manager
            and body = "''hello''" and now = 1 and md = None]
  show ?thesis
    by (simp add: zero_capacity_manager_def slice_from_zero str_nat_one or_empty_def)
qed

section \<open>Properties of the follow-up score\<close>

lemma marker_here_iff:
  "marker_here s \<longleftrightarrow>
     (\<exists>w b. s = w @ b \<and> w \<in> set marker_words \<and> (b = [] \<or> \<not> is_word_char (hd b)))"
proof
  assume "marker_here s"
  then obtain w where w: "w \<in> set marker_words" "starts_with w s"
      "case drop (length w) s of [] \<Rightarrow> True | d # ds \<Rightarrow> \<not> is_word_char d"
    unfolding marker_here_def list_ex_iff by blast
  from w(2) obtain b where b: "s = w @ b"
    unfolding starts_with_iff ..
  with w(3) have "b = [] \<or> \<not> is_word_char (hd b)"
    by (cases b) simp_all
  with w(1) b show "\<exists>w b. s = w @ b \<and> w \<in> set marker_words
      \<and> (b = [] \<or> \<not> is_word_char (hd b))"
    by blast
next
  assume "\<exists>w b. s = w @ b \<and> w \<in> set marker_words \<and> (b = [] \<or> \<not> is_word_char (hd b))"
  then obtain w b where h: "s = w @ b" "w \<in> set marker_words"
      "b = [] \<or> \<not> is_word_char (hd b)"
    by blast
  from h(1) have "starts_with w s"
    unfolding starts_with_iff by blast
  moreover from h(1,3) have "case drop (length w) s of [] \<Rightarrow> True | d # ds \<Rightarrow> \<not> is_word_char d"
    by (cases b) simp_all
  ultimately show "marker_here s"
    unfolding marker_here_def list_ex_iff using h(2) by blast
qed

lemma marker_words_nonempty: "[] \<notin> set marker_words"
  by (simp add: marker_words_def)

lemma marker_from_iff:
  "marker_from after_word s \<longleftrightarrow>
     (\<exists>a w b. s = a @ w @ b \<and> w \<in> set marker_words
        \<and> (if a = [] then \<not> after_word else \<not> is_word_char (last a))
        \<and> (b = [] \<or> \<not> is_word_char (hd b)))"
  (is "_ \<longleftrightarrow> ?R after_word s")
proof (induction s arbitrary: after_word)
  case Nil
  show ?case using marker_words_nonempty by auto
next
  case (Cons c cs)
  show ?case
  proof
    assume "marker_from after_word (c # cs)"
    then consider "\<not> after_word" "marker_here (c # cs)" | "marker_from (is_word_char c) cs"
      by auto
    then show "?R after_word (c # cs)"
    proof cases
      case 1
      from 1(2) obtain w b where wb: "c # cs = w @ b" "w \<in> set marker_words"
          "b = [] \<or> \<not> is_word_char (hd b)"
        unfolding marker_here_iff by blast
      have "c # cs = [] @ w @ b \<and> w \<in> set marker_words
          \<and> (if ([]::string) = [] then \<not> after_word else \<not> is_word_char (last []))
          \<and> (b = [] \<or> \<not> is_word_char (hd b))"
        using wb 1(1) by simp
      then show ?thesis by blast
    next
      case 2
      with Cons.IH [of "is_word_char c"] have "?R (is_word_char c) cs" by simp
      then obtain a w b where h: "cs = a @ w @ b" "w \<in> set marker_words"
          "if a = [] then \<not> is_word_char c else \<not> is_word_char (last a)"
          "b = [] \<or> \<not> is_word_char (hd b)"
        by blast
      have "c # cs = (c # a) @ w @ b \<and> w \<in> set marker_words
          \<and> (if c # a = [] then \<not> after_word else \<not> is_word_char (last (c # a)))
          \<and> (b = [] \<or> \<not> is_word_char (hd b))"
        using h by (simp split: if_splits)
      then show ?thesis by blast
    qed
  next
    assume "?R after_word (c # cs)"
    then obtain a w b where h: "c # cs = a @ w @ b" "w \<in> set marker_words"
        "if a = [] then \<not> after_word else \<not> is_word_char (last a)"
        "b = [] \<or> \<not> is_word_char (hd b)"
      by blast
    show "marker_from after_word (c # cs)"
    proof (cases a)
      case Nil
      with h have "\<not> after_word" "c # cs = w @ b" by simp_all
      with h(2,4) have "\<not> after_word" "marker_here (c # cs)"
        unfolding marker_here_iff by blast+
      then show ?thesis by simp
    next
      case (Cons x a')
      with h have "cs = a' @ w @ b \<and> w \<in> set marker_words
          \<and> (if a' = [] then \<not> is_word_char c else \<not> is_word_char (last a'))
          \<and> (b = [] \<or> \<not> is_word_char (hd b))"
        by (simp split: if_splits)
      then have "?R (is_word_char c) cs" by blast
      with Cons.IH [of "is_word_char c"] have "marker_from (is_word_char c) cs" by simp
      then show ?thesis by simp
    qed
  qed
qed

lemma has_marker_iff: "has_marker s \<longleftrightarrow> contains_marker_word s"
proof -
  have eq: "(if a = [] then \<not> False else \<not> is_word_char (last a))
              \<longleftrightarrow> (a = [] \<or> \<not> is_word_char (last a))" for a :: string
    by simp
  show ?thesis
    unfolding has_marker_def marker_from_iff contains_marker_word_def eq ..
qed

lemma bit_length_pos: "0 < n \<Longrightarrow> 2 ^ (bit_length n - 1) \<le> n"
proof (induction n rule: bit_length.induct)
  case (1 n)
  show ?case
  proof (cases "n div 2 = 0")
    case True
    with "1.prems" have "n = 1" by linarith
    have "bit_length (Suc 0) = Suc 0"
      by (simp add: bit_length.simps [of "Suc 0"] bit_length.simps [of 0])
    with \<open>n = 1\<close> show ?thesis by simp
  next
    case False
    with "1.IH" "1.prems" have ih: "2 ^ (bit_length (n div 2) - 1) \<le> n div 2" by simp
    from False have pos: "0 < bit_length (n div 2)"
      by (simp add: bit_length.simps [of "n div 2"])
    from "1.prems" have "bit_length n = Suc (bit_length (n div 2))"
      by (simp add: bit_length.simps [of n])
    then have "(2::nat) ^ (bit_length n - 1) = 2 * 2 ^ (bit_length (n div 2) - 1)"
      using pos by (cases "bit_length (n div 2)") simp_all
    also have "\<dots> \<le> 2 * (n div 2)" using ih by simp
    also have "\<dots> \<le> n" by simp
    finally show ?thesis .
  qed
qed

lemma bit_length_less: "n < 2 ^ bit_length n"
proof (induction n rule: bit_length.induct)
  case (1 n)
  show ?case
  proof (cases "n = 0")
    case True
    then show ?thesis by simp
  next
    case False
    with "1.IH" have ih: "n div 2 < 2 ^ bit_length (n div 2)" by simp
    from False have "bit_length n = Suc (bit_length (n div 2))"
      by (simp add: bit_length.simps [of n])
    moreover from ih have "n < 2 * 2 ^ bit_length (n div 2)" by linarith
    ultimately show ?thesis by simp
  qed
qed

lemma bit_length_eq:
  assumes "2 ^ l \<le> n" and "n < 2 ^ Suc l"
  shows "bit_length n = Suc l"
proof -
  from assms(1) have pos: "0 < n"
    by (metis less_le_trans zero_less_numeral zero_less_power)
  have "(2::nat) ^ (bit_length n - 1) < 2 ^ Suc l"
    using bit_length_pos [OF pos] assms(2) by linarith
  then have "bit_length n - 1 < Suc l"
    by (simp add: power_strict_increasing_iff del: power_Suc)
  moreover have "(2::nat) ^ l < 2 ^ bit_length n"
    using bit_length_less [of n] assms(1) by linarith
  then have "l < bit_length n"
    by (simp add: power_strict_increasing_iff)
  ultimately show ?thesis by linarith
qed

lemma round53_small: "n < 2 ^ 53 \<Longrightarrow> round53 n = n"
proof -
  assume small: "n < 2 ^ 53"
  have "bit_length n \<le> 53"
  proof (rule ccontr)
    assume "\<not> bit_length n \<le> 53"
    then have "53 \<le> bit_length n - 1" and "0 < n"
      by (auto simp: bit_length.simps [of n] split: if_splits)
    then have "(2::nat) ^ 53 \<le> 2 ^ (bit_length n - 1)"
      by (intro power_increasing) simp_all
    with bit_length_pos [OF \<open>0 < n\<close>] small show False by linarith
  qed
  then show ?thesis by (simp add: round53_def)
qed

lemma round53_at:
  assumes "2 ^ (52 + k) \<le> n" and "n < 2 ^ (53 + k)" and "0 < k"
  shows "round53 n = round_half_even n k * 2 ^ k"
proof -
  have "bit_length n = Suc (52 + k)"
    using assms(1,2) by (intro bit_length_eq) simp_all
  with assms(3) show ?thesis by (simp add: round53_def)
qed

lemma round53_54: "2 ^ 53 \<le> n \<Longrightarrow> n < 2 ^ 54 \<Longrightarrow> round53 n = round_half_even n 1 * 2"
  using round53_at [of 1 n] by simp

lemma round53_55: "2 ^ 54 \<le> n \<Longrightarrow> n < 2 ^ 55 \<Longrightarrow> round53 n = round_half_even n 2 * 4"
  using round53_at [of 2 n] by simp

lemma round53_56: "2 ^ 55 \<le> n \<Longrightarrow> n < 2 ^ 56 \<Longrightarrow> round53 n = round_half_even n 3 * 8"
  using round53_at [of 3 n] by simp

lemma round53_57: "2 ^ 56 \<le> n \<Longrightarrow> n < 2 ^ 57 \<Longrightarrow> round53 n = round_half_even n 4 * 16"
  using round53_at [of 4 n] by simp

lemmas float_consts = float_0_4_def float_0_3_def float_0_2_def float_0_1_def
  float_0_5_def float_1_0_def

lemmas float_eval = float_add_def round53_small round53_54 round53_55 round53_56 round53_57
  round_half_even_def Let_def

lemma round_half_even_ge: "n div 2 ^ k \<le> round_half_even n k"
  by (simp add: round_half_even_def Let_def)

lemma round53_keeps:
  assumes "2 ^ 55 + 8 \<le> n"
  shows "2 ^ 55 + 8 \<le> round53 n"
proof -
  have big: "(2::nat) ^ 55 \<le> n" using assms by simp
  have lt: "(2::nat) ^ 55 < 2 ^ bit_length n"
    using bit_length_less [of n] big by linarith
  have len: "55 < bit_length n"
    by (rule power_less_imp_less_exp [of 2, OF _ lt]) simp
  define k where "k = bit_length n - 53"
  from len have k: "3 \<le> k" "bit_length n = 53 + k" by (simp_all add: k_def)
  then have r: "round53 n = round_half_even n k * 2 ^ k"
    by (simp add: round53_def)
  have low: "n div 2 ^ k * 2 ^ k \<le> round53 n"
    unfolding r using round_half_even_ge [of n k] by simp
  show ?thesis
  proof (cases "k = 3")
    case True
    have "2 ^ 55 + 8 \<le> n div 8 * 8"
      using assms by simp
    with low True show ?thesis by simp
  next
    case False
    with k have k4: "4 \<le> k" by simp
    have pos: "0 < n" using big by simp
    have "bit_length n - 1 = 52 + k" using k by simp
    with bit_length_pos [OF pos] have "(2::nat) ^ (52 + k) \<le> n" by (simp only:)
    then have "(2::nat) ^ 52 * 2 ^ k \<le> n" by (simp add: power_add)
    then have "(2::nat) ^ 52 \<le> n div 2 ^ k"
      by (simp add: less_eq_div_iff_mult_less_eq)
    then have "(2::nat) ^ 52 * 2 ^ k \<le> n div 2 ^ k * 2 ^ k"
      by (rule mult_le_mono1)
    moreover have "(2::nat) ^ 4 \<le> 2 ^ k"
      using k4 by (intro power_increasing) simp_all
    then have "(2::nat) ^ 52 * 2 ^ 4 \<le> 2 ^ 52 * 2 ^ k"
      by (rule mult_le_mono2)
    ultimately have "(2::nat) ^ 52 * 2 ^ 4 \<le> round53 n"
      using low by linarith
    then show ?thesis by simp
  qed
qed

lemma float_sum_keeps:
  "2 ^ 55 + 8 \<le> x \<Longrightarrow> 2 ^ 55 + 8 \<le> foldl float_add x ws"
proof (induction ws arbitrary: x)
  case Nil
  then show ?case by simp
next
  case (Cons w ws)
  have "2 ^ 55 + 8 \<le> float_add x w"
    unfolding float_add_def using Cons.prems by (intro round53_keeps) simp
  from Cons.IH [OF this] show ?case by simp
qed

lemma match_loop_filter:
  "match_loop weight q xs (matched, conf) =
     (matched @ filter (\<lambda>x. occurs_in (lower x) q) xs,
      foldl float_add conf
        (replicate (length (filter (\<lambda>x. occurs_in (lower x) q) xs)) weight))"
  by (induction xs arbitrary: matched conf) (simp_all add: contains_iff)


lemma float_sum_keeps_high:
  "36028797018963976 \<le> x \<Longrightarrow> 36028797018963976 \<le> foldl float_add x ws"
  using float_sum_keeps [of x ws] by simp

lemma high_prefixes:
  "36028797018963976 \<le> float_add (float_add 0 float_0_4) float_0_4"
  "36028797018963976 \<le> float_add (float_add 0 float_0_4) float_0_3"
  "36028797018963976 \<le> float_add (float_add 0 float_0_4) float_0_2"
  "36028797018963976 \<le> float_add (float_add 0 float_0_3) float_0_3"
  "36028797018963976 \<le> float_add (float_add (float_add 0 float_0_3) float_0_2) float_0_2"
  "36028797018963976 \<le> float_add (float_add (float_add 0 float_0_3) float_0_2) float_0_1"
  "36028797018963976 \<le> float_add (float_add (float_add 0 float_0_2) float_0_2) float_0_2"
  by (simp_all add: float_consts float_eval)

lemma score_high:
  assumes "6 \<le> 4 * a + 3 * b + 2 * c + (if d then 1 else (0::nat))"
  shows "36028797018963976 \<le> float_sum (score_terms a b c d)"
proof -
  consider (A) a' where "a = Suc (Suc a')"
    | (B) b' where "a = Suc 0" "b = Suc b'"
    | (C) c' where "a = Suc 0" "b = 0" "c = Suc c'"
    | (D) b' where "a = 0" "b = Suc (Suc b')"
    | (E) c' where "a = 0" "b = Suc 0" "c = Suc (Suc c')"
    | (F) "a = 0" "b = Suc 0" "c = Suc 0" "d"
    | (G) c' where "a = 0" "b = 0" "c = Suc (Suc (Suc c'))"
  proof -
    have "2 \<le> a \<or> (a = 1 \<and> 1 \<le> b) \<or> (a = 1 \<and> b = 0 \<and> 1 \<le> c)
        \<or> (a = 0 \<and> 2 \<le> b) \<or> (a = 0 \<and> b = 1 \<and> 2 \<le> c)
        \<or> (a = 0 \<and> b = 1 \<and> c = 1 \<and> d) \<or> (a = 0 \<and> b = 0 \<and> 3 \<le> c)"
      using assms by (cases d) (simp_all, presburger+)
    then show ?thesis
    proof (elim disjE conjE)
      assume "2 \<le> a"
      then have "a = Suc (Suc (a - 2))" by simp
      then show ?thesis by (rule A)
    next
      assume "a = 1" "1 \<le> b"
      then have "a = Suc 0" "b = Suc (b - 1)" by simp_all
      then show ?thesis by (rule B)
    next
      assume "a = 1" "b = 0" "1 \<le> c"
      then have "a = Suc 0" "b = 0" "c = Suc (c - 1)" by simp_all
      then show ?thesis by (rule C)
    next
      assume "a = 0" "2 \<le> b"
      then have "a = 0" "b = Suc (Suc (b - 2))" by simp_all
      then show ?thesis by (rule D)
    next
      assume "a = 0" "b = 1" "2 \<le> c"
      then have "a = 0" "b = Suc 0" "c = Suc (Suc (c - 2))" by simp_all
      then show ?thesis by (rule E)
    next
      assume "a = 0" "b = 1" "c = 1" "d"
      then have "a = 0" "b = Suc 0" "c = Suc 0" "d" by simp_all
      then show ?thesis by (rule F)
    next
      assume "a = 0" "b = 0" "3 \<le> c"
      then have "a = 0" "b = 0" "c = Suc (Suc (Suc (c - 3)))" by simp_all
      then show ?thesis by (rule G)
    qed
  qed
  then show ?thesis
    by cases
      (simp_all add: score_terms_def float_sum_def float_sum_keeps_high high_prefixes)
qed


lemma low_sums:
  "float_sum (score_terms 0 0 0 False) \<le> float_0_5"
  "float_sum (score_terms 0 0 0 True) \<le> float_0_5"
  "float_sum (score_terms (Suc 0) 0 0 False) \<le> float_0_5"
  "float_sum (score_terms (Suc 0) 0 0 True) \<le> float_0_5"
  "float_sum (score_terms 0 (Suc 0) 0 False) \<le> float_0_5"
  "float_sum (score_terms 0 (Suc 0) 0 True) \<le> float_0_5"
  "float_sum (score_terms 0 (Suc 0) (Suc 0) False) \<le> float_0_5"
  "float_sum (score_terms 0 0 (Suc 0) False) \<le> float_0_5"
  "float_sum (score_terms 0 0 (Suc 0) True) \<le> float_0_5"
  "float_sum (score_terms 0 0 (Suc (Suc 0)) False) \<le> float_0_5"
  "float_sum (score_terms 0 0 (Suc (Suc 0)) True) \<le> float_0_5"
  by (simp_all add: score_terms_def float_sum_def float_consts float_eval)

lemma score_low:
  assumes "4 * a + 3 * b + 2 * c + (if d then 1 else (0::nat)) \<le> 5"
  shows "float_sum (score_terms a b c d) \<le> float_0_5"
proof -
  have "(a = 0 \<and> b = 0 \<and> c = 0) \<or> (a = Suc 0 \<and> b = 0 \<and> c = 0)
      \<or> (a = 0 \<and> b = Suc 0 \<and> c = 0) \<or> (a = 0 \<and> b = Suc 0 \<and> c = Suc 0 \<and> \<not> d)
      \<or> (a = 0 \<and> b = 0 \<and> c = Suc 0) \<or> (a = 0 \<and> b = 0 \<and> c = Suc (Suc 0))"
    using assms by (cases d) (simp_all, presburger+)
  then show ?thesis
  proof (elim disjE conjE)
    assume "a = 0" "b = 0" "c = 0"
    then show ?thesis using low_sums(1,2) by (cases d) simp_all
  next
    assume "a = Suc 0" "b = 0" "c = 0"
    then show ?thesis using low_sums(3,4) by (cases d) simp_all
  next
    assume "a = 0" "b = Suc 0" "c = 0"
    then show ?thesis using low_sums(5,6) by (cases d) simp_all
  next
    assume "a = 0" "b = Suc 0" "c = Suc 0" "\<not> d"
    then show ?thesis using low_sums(7) by simp
  next
    assume "a = 0" "b = 0" "c = Suc 0"
    then show ?thesis using low_sums(8,9) by (cases d) simp_all
  next
    assume "a = 0" "b = 0" "c = Suc (Suc 0)"
    then show ?thesis using low_sums(10,11) by (cases d) simp_all
  qed
qed

lemma float_sum_follow_up_iff:
  "float_0_5 < float_sum (score_terms a b c d)
     \<longleftrightarrow> 6 \<le> 4 * a + 3 * b + 2 * c + (if d then 1 else (0::nat))"
proof
  assume high: "float_0_5 < float_sum (score_terms a b c d)"
  show "6 \<le> 4 * a + 3 * b + 2 * c + (if d then 1 else (0::nat))"
  proof (rule ccontr)
    assume "\<not> 6 \<le> 4 * a + 3 * b + 2 * c + (if d then 1 else (0::nat))"
    then have "4 * a + 3 * b + 2 * c + (if d then 1 else (0::nat)) \<le> 5" by simp
    from score_low [OF this] high show False by simp
  qed
next
  assume "6 \<le> 4 * a + 3 * b + 2 * c + (if d then 1 else (0::nat))"
  from score_high [OF this] show "float_0_5 < float_sum (score_terms a b c d)"
    by (simp add: float_0_5_def)
qed

lemma tenths_over_half: "(0.5::real) < real n / 10 \<longleftrightarrow> 6 \<le> n"
proof -
  have "(0.5::real) < real n / 10 \<longleftrightarrow> real 5 < real n" by simp
  also have "\<dots> \<longleftrightarrow> 5 < n" by (rule of_nat_less_iff)
  also have "\<dots> \<longleftrightarrow> 6 \<le> n" by linarith
  finally show ?thesis .
qed

lemma exact_score_iff:
  "(0.5::real) < 0.4 * real a + 0.3 * real b + 0.2 * real c + (if d then 0.1 else 0)
     \<longleftrightarrow> 6 \<le> 4 * a + 3 * b + 2 * c + (if d then 1 else (0::nat))"
proof -
  have eq: "0.4 * real a + 0.3 * real b + 0.2 * real c + (if d then 0.1 else 0)
        = real (4 * a + 3 * b + 2 * c + (if d then 1 else 0)) / 10"
    by (cases d) simp_all
  show ?thesis unfolding eq by (rule tenths_over_half)
qed

text \<open>
  The three loops and the marker rule add the weights of \<open>score_terms\<close> one after the
  other, so the result of \<open>evaluate_follow_up_relevance\<close> is determined by the matches.
\<close>

lemma float_sum_score_terms:
  "float_sum (score_terms a b c d) =
     (let c3 = foldl float_add (foldl float_add (foldl float_add 0 (replicate a float_0_4))
                 (replicate b float_0_3)) (replicate c float_0_2)
      in if d then float_add c3 float_0_1 else c3)"
  by (simp add: float_sum_def score_terms_def)

lemma float_value_capped: "float_value (min x float_1_0) \<le> 1"
  by (simp add: float_value_def float_1_0_def min_def)

lemma evaluate_follow_up_relevance_sum:
  assumes "sid \<noteq> []" and "new_query \<noteq> []"
    and "map_of (conversations m) sid = Some conversation"
  shows "evaluate_follow_up_relevance sid new_query m =
      (let f = follow_up_context conversation;
           topics = filter (\<lambda>x. occurs_in (lower x) (lower new_query)) (expected_topics f);
           questions = filter (\<lambda>x. occurs_in (lower x) (lower new_query)) (related_questions f);
           keywords = filter (\<lambda>x. occurs_in (lower x) (lower new_query)) (context_keywords f);
           total = float_sum (score_terms (length topics) (length questions) (length keywords)
                     (contains_marker_word (lower new_query)))
       in \<lparr>is_follow_up = (float_0_5 < total), confidence = min total float_1_0,
           matched_context = Some (topics, questions, keywords), error = None\<rparr>)"
  using assms
  by (simp add: evaluate_follow_up_relevance_def Let_def match_loop_filter has_marker_iff
      float_sum_score_terms)

lemma follow_up_manager_eval:
  "map_of (conversations follow_up_manager) ''CA1'' =
     Some ((new_conversation None 0)
             \<lparr>follow_up_context :=
                \<lparr>expected_topics = [''FHA''], related_questions = [''down payment''],
                 context_keywords = [''loan'', ''rate'']\<rparr>\<rparr>)"
  by (simp add: follow_up_manager_def example_manager_def add_follow_up_context_def
      new_conversation_def Let_def)

lemma example_matches:
  "occurs_in (lower ''FHA'') (lower ''Tell me more about FHA loan rates'')"
  "\<not> occurs_in (lower ''down payment'') (lower ''Tell me more about FHA loan rates'')"
  "occurs_in (lower ''loan'') (lower ''Tell me more about FHA loan rates'')"
  "occurs_in (lower ''rate'') (lower ''Tell me more about FHA loan rates'')"
  "contains_marker_word (lower ''Tell me more about FHA loan rates'')"
  unfolding contains_iff [symmetric] has_marker_iff [symmetric]
  by code_simp+

lemma example_sums:
  "float_sum (score_terms (Suc 0) 0 (Suc (Suc 0)) True) = 64851834634135144"
  "float_sum (score_terms (Suc 0) 0 (Suc 0) False) = 43234556422756768"
  by (simp_all add: score_terms_def float_sum_def float_consts float_eval)

lemma short_query_matches:
  "occurs_in (lower ''FHA'') (lower ''FHA loan'')"
  "\<not> occurs_in (lower ''down payment'') (lower ''FHA loan'')"
  "occurs_in (lower ''loan'') (lower ''FHA loan'')"
  "\<not> occurs_in (lower ''rate'') (lower ''FHA loan'')"
  "\<not> contains_marker_word (lower ''FHA loan'')"
  unfolding contains_iff [symmetric] has_marker_iff [symmetric]
  by code_simp+

text \<open>
  Claim C6, amended. For an existing session and a non-empty query, the confidence
  returned by \<open>evaluate_follow_up_relevance\<close> is the sum, accumulated in double
  precision in the order expected topics, related questions, context keywords, marker
  word, of 0.4 for each matched expected topic, 0.3 for each matched related question,
  0.2 for each matched context keyword and 0.1 for a continuation marker word, capped
  at 1.0; it is at most 1. \<open>is_follow_up\<close> holds exactly when the score of the
  specification, the same sum in exact decimal arithmetic, exceeds 0.5. The matched
  entries are returned in the order of the context.
\<close>

theorem evaluate_follow_up_relevance_score:
  assumes "sid \<noteq> []" and "new_query \<noteq> []"
    and "map_of (conversations m) sid = Some conversation"
    and "topics = filter (\<lambda>x. occurs_in (lower x) (lower new_query))
                    (expected_topics (follow_up_context conversation))"
    and "questions = filter (\<lambda>x. occurs_in (lower x) (lower new_query))
                       (related_questions (follow_up_context conversation))"
    and "keywords = filter (\<lambda>x. occurs_in (lower x) (lower new_query))
                      (context_keywords (follow_up_context conversation))"
  shows "confidence (evaluate_follow_up_relevance sid new_query m)
           = min (float_sum (score_terms (length topics) (length questions) (length keywords)
                    (contains_marker_word (lower new_query)))) float_1_0
       \<and> float_value (confidence (evaluate_follow_up_relevance sid new_query m)) \<le> 1
       \<and> (is_follow_up (evaluate_follow_up_relevance sid new_query m)
            \<longleftrightarrow> spec_follow_up_score (follow_up_context conversation) new_query > 0.5)
       \<and> matched_context (evaluate_follow_up_relevance sid new_query m)
           = Some (topics, questions, keywords)
       \<and> error (evaluate_follow_up_relevance sid new_query m) = None"
proof -
  note r = evaluate_follow_up_relevance_sum [OF assms(1-3)]
  have c: "confidence (evaluate_follow_up_relevance sid new_query m)
           = min (float_sum (score_terms (length topics) (length questions) (length keywords)
                    (contains_marker_word (lower new_query)))) float_1_0"
    unfolding r assms(4-6) by (simp add: Let_def)
  have v: "float_value (confidence (evaluate_follow_up_relevance sid new_query m)) \<le> 1"
    unfolding c by (rule float_value_capped)
  have f: "is_follow_up (evaluate_follow_up_relevance sid new_query m)
      \<longleftrightarrow> float_0_5 < float_sum (score_terms (length topics) (length questions)
                         (length keywords) (contains_marker_word (lower new_query)))"
    unfolding r assms(4-6) by (simp add: Let_def)
  have s: "spec_follow_up_score (follow_up_context conversation) new_query > 0.5
      \<longleftrightarrow> 6 \<le> 4 * length topics + 3 * length questions + 2 * length keywords
                 + (if contains_marker_word (lower new_query) then 1 else 0)"
    unfolding spec_follow_up_score_def assms(4-6) by (rule exact_score_iff)
  have i: "is_follow_up (evaluate_follow_up_relevance sid new_query m)
            \<longleftrightarrow> spec_follow_up_score (follow_up_context conversation) new_query > 0.5"
    unfolding f s by (rule float_sum_follow_up_iff)
  have x: "matched_context (evaluate_follow_up_relevance sid new_query m)
           = Some (topics, questions, keywords)"
    unfolding r assms(4-6) by (simp add: Let_def)
  have e: "error (evaluate_follow_up_relevance sid new_query m) = None"
    unfolding r by (simp add: Let_def)
  from c v i x e show ?thesis by blast
qed

theorem evaluate_follow_up_relevance_score_witness:
  "confidence (evaluate_follow_up_relevance ''CA1'' ''Tell me more about FHA loan rates''
                 follow_up_manager) = 64851834634135144
   \<and> is_follow_up (evaluate_follow_up_relevance ''CA1'' ''Tell me more about FHA loan rates''
                     follow_up_manager)
   \<and> matched_context (evaluate_follow_up_relevance ''CA1''
                         ''Tell me more about FHA loan rates'' follow_up_manager)
       = Some ([''FHA''], [], [''loan'', ''rate''])"
proof -
  have a: "''CA1'' \<noteq> []" by simp
  have b: "''Tell me more about FHA loan rates'' \<noteq> []" by simp
  from evaluate_follow_up_relevance_score [OF a b follow_up_manager_eval refl refl refl]
  show ?thesis
    by (simp add: example_matches example_sums float_1_0_def spec_follow_up_score_def)
qed

text \<open>
  The claim as stated, with the confidence equal to the decimal sum, fails for the query
  \<open>FHA loan\<close>: one expected topic and one context keyword match, the score of the
  specification is 0.6, and the code returns the double 0.4 + 0.2, which is
  43234556422756768 units of 2 to the power -56 (0.6000000000000001), above 0.6.
\<close>

theorem confidence_is_not_the_decimal_sum_counterexample:
  "spec_follow_up_score
     \<lparr>expected_topics = [''FHA''], related_questions = [''down payment''],
      context_keywords = [''loan'', ''rate'']\<rparr> ''FHA loan'' = 0.6
   \<and> confidence (evaluate_follow_up_relevance ''CA1'' ''FHA loan'' follow_up_manager)
       = 43234556422756768
   \<and> float_value (confidence (evaluate_follow_up_relevance ''CA1'' ''FHA loan''
                                 follow_up_manager)) > 0.6"
proof -
  have a: "''CA1'' \<noteq> []" by simp
  have b: "''FHA loan'' \<noteq> []" by simp
  have c: "confidence (evaluate_follow_up_relevance ''CA1'' ''FHA loan'' follow_up_manager)
       = 43234556422756768"
    unfolding evaluate_follow_up_relevance_sum [OF a b follow_up_manager_eval]
    by (simp add: short_query_matches example_sums float_1_0_def)
  have d: "float_value 43234556422756768 > 0.6"
    by (simp add: float_value_def)
  have e: "spec_follow_up_score
     \<lparr>expected_topics = [''FHA''], related_questions = [''down payment''],
      context_keywords = [''loan'', ''rate'']\<rparr> ''FHA loan'' = 0.6"
    by (simp add: spec_follow_up_score_def short_query_matches)
  from c d e show ?thesis by simp
qed

section \<open>Properties of the chunker\<close>

lemma solid_iff: "solid s \<longleftrightarrow> (\<exists>c \<in> set s. \<not> is_space c)"
  by (simp add: solid_def list_ex_iff)

lemma solid_Cons: "solid (c # cs) \<longleftrightarrow> \<not> is_space c \<or> solid cs"
  by (simp add: solid_def)

lemma solid_append: "solid (a @ b) \<longleftrightarrow> solid a \<or> solid b"
  by (auto simp: solid_iff)

lemma not_solid_Nil: "\<not> solid []"
  by (simp add: solid_def)

lemma dropWhile_space_solid: "solid s \<Longrightarrow> solid (dropWhile is_space s)"
  by (induction s) (auto simp: solid_Cons)

lemma dropWhile_space_cases: "dropWhile is_space s = [] \<or> solid (dropWhile is_space s)"
  by (induction s) (auto simp: solid_Cons)

lemma solid_rev: "solid (rev s) \<longleftrightarrow> solid s"
  by (simp add: solid_iff)

lemma strip_solid: "solid s \<Longrightarrow> strip s \<noteq> []"
proof -
  assume "solid s"
  then have "solid (rev (dropWhile is_space s))"
    by (simp add: solid_rev dropWhile_space_solid)
  then have "solid (dropWhile is_space (rev (dropWhile is_space s)))"
    by (rule dropWhile_space_solid)
  then have "solid (strip s)"
    by (simp add: strip_def solid_rev)
  then show "strip s \<noteq> []"
    using not_solid_Nil by auto
qed

lemma terminal_not_space: "is_terminal c \<Longrightarrow> \<not> is_space c"
  by (auto simp: is_terminal_def is_space_def)

lemma split_sentences_nonempty: "split_sentences str \<noteq> []"
  by (induction str rule: split_sentences.induct) (auto split: list.splits)

lemma split_sentences_first: "str \<noteq> [] \<Longrightarrow> hd (split_sentences str) \<noteq> []"
  by (cases str) (auto split: list.splits)

lemma split_sentences_blank: "\<not> solid str \<Longrightarrow> split_sentences str = [str]"
proof (induction str)
  case Nil
  show ?case by simp
next
  case (Cons c cs)
  then have "is_space c" "\<not> solid cs" by (auto simp: solid_Cons)
  with Cons.IH terminal_not_space [of c] show ?case by auto
qed

lemma split_sentences_solid:
  "solid str \<Longrightarrow> s \<in> set (split_sentences str) \<Longrightarrow> s = [] \<or> solid s"
proof (induction str arbitrary: s rule: split_sentences.induct)
  case 1
  then show ?case by (simp add: not_solid_Nil)
next
  case (2 c cs)
  show ?case
  proof (cases "is_terminal c \<and> cs \<noteq> [] \<and> is_space (hd cs)")
    case True
    with "2.prems"(2) consider "s = [c]" | "s \<in> set (split_sentences (dropWhile is_space cs))"
      by auto
    then show ?thesis
    proof cases
      case 1
      with True terminal_not_space [of c] show ?thesis by (simp add: solid_Cons)
    next
      case 2
      note mem = this
      from dropWhile_space_cases [of cs] show ?thesis
      proof
        assume "dropWhile is_space cs = []"
        with mem show ?thesis by simp
      next
        assume "solid (dropWhile is_space cs)"
        with "2.IH"(1) [OF True] mem show ?thesis by blast
      qed
    qed
  next
    case False
    obtain s0 ss where sp: "split_sentences cs = s0 # ss"
      using split_sentences_nonempty [of cs] by (cases "split_sentences cs") auto
    with False "2.prems"(2) consider "s = c # s0" | "s \<in> set ss"
      by auto
    then show ?thesis
    proof cases
      case 1
      show ?thesis
      proof (cases "is_space c")
        case True
        with "2.prems"(1) have "solid cs" by (simp add: solid_Cons)
        then have "cs \<noteq> []" using not_solid_Nil by auto
        from split_sentences_first [OF this] sp have "s0 \<noteq> []" by simp
        moreover from "2.IH"(2) [OF False \<open>solid cs\<close>, of s0] sp have "s0 = [] \<or> solid s0"
          by simp
        ultimately show ?thesis using 1 by (simp add: solid_Cons)
      next
        case False
        with 1 show ?thesis by (simp add: solid_Cons)
      qed
    next
      case 2
      note mem = this
      show ?thesis
      proof (cases "solid cs")
        case True
        from "2.IH"(2) [OF False True, of s] sp mem show ?thesis by simp
      next
        case False
        from split_sentences_blank [OF this] sp mem show ?thesis by simp
      qed
    qed
  qed
qed

lemma chunk_loop_no_empty:
  assumes "\<forall>s \<in> set sentences. s = [] \<or> solid s"
    and "current_chunk = [] \<or> solid current_chunk"
    and "[] \<notin> set chunks"
  shows "[] \<notin> set (chunk_loop max_chunk_length chunks current_chunk sentences)"
  using assms
proof (induction sentences arbitrary: chunks current_chunk)
  case Nil
  then show ?case using strip_solid [of current_chunk] by auto
next
  case (Cons s ss)
  have rest: "\<forall>s \<in> set ss. s = [] \<or> solid s" and s: "s = [] \<or> solid s"
    using Cons.prems(1) by auto
  show ?case
  proof (cases "int (length current_chunk) + int (length s) \<le> max_chunk_length")
    case True
    have "(if current_chunk \<noteq> [] then current_chunk @ '' '' @ s else s) = []
          \<or> solid (if current_chunk \<noteq> [] then current_chunk @ '' '' @ s else s)"
      using s Cons.prems(2) by (auto simp: solid_append)
    from Cons.IH [OF rest this Cons.prems(3)] True show ?thesis by simp
  next
    case False
    have "[] \<notin> set (if current_chunk \<noteq> [] then chunks @ [strip current_chunk] else chunks)"
      using Cons.prems(2,3) strip_solid [of current_chunk] by auto
    from Cons.IH [OF rest s this] False show ?thesis by simp
  qed
qed

text \<open>
  Claim C9, amended. A text that fits within the maximal chunk length is returned
  unchanged as the only chunk; and for every text that has a character other than
  whitespace, no chunk is the empty string.
\<close>

theorem chunk_response_short_and_nonempty:
  "(int (length response_text) \<le> max_chunk_length
      \<longrightarrow> chunk_response response_text max_chunk_length = [response_text])
   \<and> (solid response_text \<longrightarrow> [] \<notin> set (chunk_response response_text max_chunk_length))"
proof (intro conjI impI)
  assume "int (length response_text) \<le> max_chunk_length"
  then show "chunk_response response_text max_chunk_length = [response_text]"
    by (simp add: chunk_response_def)
next
  assume solid: "solid response_text"
  show "[] \<notin> set (chunk_response response_text max_chunk_length)"
  proof (cases "int (length response_text) \<le> max_chunk_length")
    case True
    with solid not_solid_Nil show ?thesis by (auto simp: chunk_response_def)
  next
    case False
    have "\<forall>s \<in> set (split_sentences response_text). s = [] \<or> solid s"
      using split_sentences_solid [OF solid] by blast
    from chunk_loop_no_empty [OF this, of "[]" "[]" max_chunk_length] False
    show ?thesis by (simp add: chunk_response_def)
  qed
qed

theorem chunk_response_short_and_nonempty_witness:
  "int (length ''ab. cd.'') \<le> 150 \<and> chunk_response ''ab. cd.'' 150 = [''ab. cd.'']
   \<and> solid ''ab. cd. ef.'' \<and> [] \<notin> set (chunk_response ''ab. cd. ef.'' 7)"
proof -
  have a: "int (length ''ab. cd.'') \<le> 150" by simp
  have b: "solid ''ab. cd. ef.''" by code_simp
  from chunk_response_short_and_nonempty [of "''ab. cd.''" 150]
    chunk_response_short_and_nonempty [of "''ab. cd. ef.''" 7] a b
  show ?thesis by blast
qed

text \<open>
  The claim as stated fails at the empty text: it fits within any non-negative length,
  so it is returned as the only chunk, and that chunk is empty.
\<close>

theorem chunk_response_empty_text_counterexample:
  "[] \<in> set (chunk_response [] 150)"
  by (simp add: chunk_response_def)

text \<open>
  Claim C3 at two inputs. With a maximal length of 6 the text "ab. cd." (length
  7) has the sentences "ab." and "cd."; their lengths add up to 6, they are joined
  with a space, and the only chunk has length 7. With the default maximal length of
  150, two sentences of 75 characters are joined into one chunk of 151 characters.
\<close>

theorem chunk_response_joined_chunk_too_long:
  "split_sentences ''ab. cd.'' = [''ab.'', ''cd.'']
   \<and> chunk_response ''ab. cd.'' 6 = [''ab. cd.'']
   \<and> length ''ab. cd.'' = 7
   \<and> split_sentences two_sentences
       = [replicate 74 CHR ''a'' @ ''.'', replicate 74 CHR ''b'' @ ''.'']
   \<and> chunk_response two_sentences 150 = [two_sentences]
   \<and> length two_sentences = 151"
  by code_simp

text \<open>
  What the packing loop does guarantee about lengths: a chunk is at most one character
  longer than the maximal length, unless it is a single sentence that is itself longer.
\<close>

lemma length_strip_le: "length (strip s) \<le> length s"
proof -
  have "length (strip s) \<le> length (dropWhile is_space s)"
    unfolding strip_def length_rev
    using length_dropWhile_le [of is_space "rev (dropWhile is_space s)"] by simp
  also have "\<dots> \<le> length s" by (rule length_dropWhile_le)
  finally show ?thesis .
qed

lemma chunk_loop_bound:
  assumes "\<forall>c \<in> set chunks. int (length c) \<le> m + 1
             \<or> (\<exists>s \<in> S. c = strip s \<and> m < int (length s))"
    and "current_chunk = [] \<or> int (length current_chunk) \<le> m + 1
           \<or> (current_chunk \<in> S \<and> m < int (length current_chunk))"
    and "set sentences \<subseteq> S"
  shows "\<forall>c \<in> set (chunk_loop m chunks current_chunk sentences).
           int (length c) \<le> m + 1 \<or> (\<exists>s \<in> S. c = strip s \<and> m < int (length s))"
  using assms
proof (induction sentences arbitrary: chunks current_chunk)
  case Nil
  have "int (length (strip current_chunk)) \<le> m + 1
          \<or> (\<exists>s \<in> S. strip current_chunk = strip s \<and> m < int (length s))"
    if "current_chunk \<noteq> []"
    using that Nil.prems(2) length_strip_le [of current_chunk] by auto
  with Nil.prems(1) show ?case by auto
next
  case (Cons x xs)
  have xs: "set xs \<subseteq> S" and x: "x \<in> S" using Cons.prems(3) by auto
  show ?case
  proof (cases "int (length current_chunk) + int (length x) \<le> m")
    case True
    let ?next = "if current_chunk \<noteq> [] then current_chunk @ '' '' @ x else x"
    have "?next = [] \<or> int (length ?next) \<le> m + 1 \<or> (?next \<in> S \<and> m < int (length ?next))"
      using True by auto
    from Cons.IH [OF Cons.prems(1) this xs] True show ?thesis by simp
  next
    case False
    let ?chunks = "if current_chunk \<noteq> [] then chunks @ [strip current_chunk] else chunks"
    have flushed: "int (length (strip current_chunk)) \<le> m + 1
          \<or> (\<exists>s \<in> S. strip current_chunk = strip s \<and> m < int (length s))"
      if "current_chunk \<noteq> []"
      using that Cons.prems(2) length_strip_le [of current_chunk] by auto
    have a: "\<forall>c \<in> set ?chunks. int (length c) \<le> m + 1
             \<or> (\<exists>s \<in> S. c = strip s \<and> m < int (length s))"
      using Cons.prems(1) flushed by auto
    have b: "x = [] \<or> int (length x) \<le> m + 1 \<or> (x \<in> S \<and> m < int (length x))"
      using x by auto
    from Cons.IH [OF a b xs] False show ?thesis by simp
  qed
qed

lemma chunk_response_bound:
  assumes "c \<in> set (chunk_response response_text m)"
  shows "int (length c) \<le> m + 1
       \<or> (\<exists>s \<in> set (split_sentences response_text). c = strip s \<and> m < int (length s))"
proof (cases "int (length response_text) \<le> m")
  case True
  with assms show ?thesis by (simp add: chunk_response_def)
next
  case False
  with assms have "c \<in> set (chunk_loop m [] [] (split_sentences response_text))"
    by (simp add: chunk_response_def)
  with chunk_loop_bound [of "[]" m "set (split_sentences response_text)" "[]"
         "split_sentences response_text"]
  show ?thesis by simp
qed

text \<open>
  What the chunker does guarantee about the sentences: when the text has no whitespace
  at its ends, every chunk is a run of consecutive sentences joined by single spaces,
  so joining the chunks with single spaces gives the sentences joined in order.
\<close>

lemma strip_clean: "clean s \<Longrightarrow> strip s = s"
proof -
  assume c: "clean s"
  then have "dropWhile is_space s = s"
    by (cases s) (simp_all add: clean_def)
  moreover from c have "dropWhile is_space (rev s) = rev s"
    by (cases s rule: rev_cases) (simp_all add: clean_def)
  ultimately show "strip s = s" by (simp add: strip_def)
qed

lemma clean_joined: "clean a \<Longrightarrow> clean b \<Longrightarrow> clean (a @ '' '' @ b)"
  by (simp add: clean_def)

lemma join_sp_Cons: "ys \<noteq> [] \<Longrightarrow> join_sp (x # ys) = x @ '' '' @ join_sp ys"
  by (cases ys) simp_all

lemma join_sp_merge: "join_sp (xs @ (a @ '' '' @ b) # ys) = join_sp (xs @ a # b # ys)"
proof (induction xs)
  case Nil
  show ?case by (cases ys) simp_all
next
  case (Cons x xs)
  then show ?case by (simp add: join_sp_Cons)
qed

lemma chunk_loop_join:
  assumes "\<forall>s \<in> set sentences. clean s"
    and "current_chunk = [] \<or> clean current_chunk"
  shows "join_sp (chunk_loop m chunks current_chunk sentences)
         = join_sp (chunks @ (if current_chunk = [] then [] else [current_chunk]) @ sentences)"
  using assms
proof (induction sentences arbitrary: chunks current_chunk)
  case Nil
  then show ?case by (auto simp: strip_clean)
next
  case (Cons x xs)
  have xs: "\<forall>s \<in> set xs. clean s" and x: "clean x" using Cons.prems(1) by auto
  then have x_ne: "x \<noteq> []" by (simp add: clean_def)
  show ?case
  proof (cases "int (length current_chunk) + int (length x) \<le> m")
    case True
    show ?thesis
    proof (cases "current_chunk = []")
      case True': True
      from Cons.IH [OF xs, of x chunks] x x_ne True True' show ?thesis by simp
    next
      case False
      with Cons.prems(2) x have "clean (current_chunk @ '' '' @ x)"
        using clean_joined [of current_chunk x] by blast
      from Cons.IH [OF xs disjI2 [OF this], of chunks] True False
        join_sp_merge [of chunks current_chunk x xs]
      show ?thesis by simp
    qed
  next
    case False
    show ?thesis
    proof (cases "current_chunk = []")
      case True
      from Cons.IH [OF xs disjI2 [OF x], of chunks] x_ne False True show ?thesis by simp
    next
      case nonempty: False
      with Cons.prems(2) have "strip current_chunk = current_chunk"
        by (simp add: strip_clean)
      with Cons.IH [OF xs disjI2 [OF x], of "chunks @ [current_chunk]"] x_ne False nonempty
      show ?thesis by simp
    qed
  qed
qed

lemma dropWhile_space_last:
  "cs \<noteq> [] \<Longrightarrow> \<not> is_space (last cs) \<Longrightarrow>
   dropWhile is_space cs \<noteq> [] \<and> last (dropWhile is_space cs) = last cs
     \<and> \<not> is_space (hd (dropWhile is_space cs))"
proof (induction cs)
  case Nil
  then show ?case by simp
next
  case (Cons c cs)
  then show ?case by (cases "cs = []") auto
qed

lemma split_sentences_shape:
  assumes "str \<noteq> []" and "\<not> is_space (last str)"
  shows "hd (split_sentences str) \<noteq> [] \<and> hd (hd (split_sentences str)) = hd str
       \<and> \<not> is_space (last (hd (split_sentences str)))
       \<and> (\<forall>s \<in> set (tl (split_sentences str)). clean s)"
  using assms
proof (induction str rule: split_sentences.induct)
  case 1
  then show ?case by simp
next
  case (2 c cs)
  show ?case
  proof (cases "is_terminal c \<and> cs \<noteq> [] \<and> is_space (hd cs)")
    case True
    then have "cs \<noteq> []" by simp
    with "2.prems" have last_cs: "\<not> is_space (last cs)" by simp
    from dropWhile_space_last [OF \<open>cs \<noteq> []\<close> this] last_cs
    have d: "dropWhile is_space cs \<noteq> []" "\<not> is_space (last (dropWhile is_space cs))"
        "\<not> is_space (hd (dropWhile is_space cs))"
      by metis+
    from "2.IH"(1) [OF True d(1,2)] d(3)
    have "\<forall>s \<in> set (split_sentences (dropWhile is_space cs)). clean s"
      using split_sentences_nonempty [of "dropWhile is_space cs"]
      by (cases "split_sentences (dropWhile is_space cs)") (auto simp: clean_def)
    with True terminal_not_space [of c] show ?thesis by simp
  next
    case False
    obtain s0 ss where sp: "split_sentences cs = s0 # ss"
      using split_sentences_nonempty [of cs] by (cases "split_sentences cs") auto
    have eq: "split_sentences (c # cs) = (c # s0) # ss"
      by (simp only: split_sentences.simps False if_False sp list.case)
    show ?thesis
    proof (cases "cs = []")
      case True
      with sp have "s0 = []" "ss = []" by simp_all
      with "2.prems" True show ?thesis unfolding eq by simp
    next
      case nonempty: False
      with "2.prems" have "\<not> is_space (last cs)" by simp
      from "2.IH"(2) [OF False nonempty this] sp
      have "s0 \<noteq> [] \<and> \<not> is_space (last s0) \<and> (\<forall>x \<in> set ss. clean x)" by simp
      then show ?thesis unfolding eq by simp
    qed
  qed
qed

lemma split_sentences_clean:
  "clean str \<Longrightarrow> s \<in> set (split_sentences str) \<Longrightarrow> clean s"
proof -
  assume c: "clean str" and mem: "s \<in> set (split_sentences str)"
  from c have "str \<noteq> []" "\<not> is_space (last str)" "\<not> is_space (hd str)"
    by (simp_all add: clean_def)
  from split_sentences_shape [OF this(1,2)] this(3) mem
    split_sentences_nonempty [of str]
  show "clean s"
    by (cases "split_sentences str") (auto simp: clean_def)
qed

lemma chunk_response_join:
  assumes "clean response_text" and "max_chunk_length < int (length response_text)"
  shows "join_sp (chunk_response response_text max_chunk_length)
         = join_sp (split_sentences response_text)"
proof -
  have "\<forall>s \<in> set (split_sentences response_text). clean s"
    using split_sentences_clean [OF assms(1)] by blast
  from chunk_loop_join [OF this, of "[]" max_chunk_length "[]"] assms(2)
  show ?thesis by (simp add: chunk_response_def)
qed

end
